theory Spec2Isabelle
  imports Main
begin

section \<open>The network cache of puppeteer-network-cache\<close>

text \<open>
  The theory embeds the class \<^verbatim>\<open>NetworkCache\<close> of \<^verbatim>\<open>src/index.ts\<close>: the two bounded
  arrays \<^verbatim>\<open>requests\<close> and \<^verbatim>\<open>responses\<close>, the two validator functions, the event emitter
  with its listeners, and the methods \<^verbatim>\<open>existRequest\<close>, \<^verbatim>\<open>existResponse\<close>,
  \<^verbatim>\<open>waitRequest\<close> and \<^verbatim>\<open>waitResponse\<close>.

  JavaScript runs the class on one thread. Every callback (a listener called by
  \<^verbatim>\<open>emit\<close>, the part of an \<^verbatim>\<open>async\<close> listener after its \<^verbatim>\<open>await\<close>, a timer callback,
  the executor of \<^verbatim>\<open>new Promise\<close>) runs to its end before the next one starts. Each
  callback is a function from cache state to cache state here, and an execution is a
  list of events, one per callback, in the order the event loop runs them.

  The file holds two versions of the class, one on \<^verbatim>\<open>TypedEmitter\<close> and one on
  \<^verbatim>\<open>TypedEventTarget\<close>; they differ in the emitter they use and in the class of the
  timeout error, and the model follows the first. Earlier versions of the plugin elsewhere
  in the repository run the validator in the page handler, and the earliest keep the
  arrays newest first; of those only the newest-first store is modelled, for comparison.

  What belongs to the runtime and not to the repository is abstracted as follows.
  \<^item> A \<^verbatim>\<open>RegExp\<close> is the predicate on strings that \<^verbatim>\<open>urlRegex.test\<close> computes
    (a pattern without the \<^verbatim>\<open>g\<close> and \<^verbatim>\<open>y\<close> flags, whose \<^verbatim>\<open>test\<close> has no state).
  \<^item> A timer has no clock: an armed timer fires at some later event, or is cleared.
  \<^item> \<^verbatim>\<open>cacheLimit\<close> is an integer (the field has type \<^verbatim>\<open>number\<close>).
\<close>

subsection \<open>Records, errors, validators\<close>

text \<open>The two event names of \<^verbatim>\<open>NetworkCacheEvents\<close>.\<close>

datatype kind = Request | Response

text \<open>
  \<^verbatim>\<open>ExtendedHTTPRequest\<close> and \<^verbatim>\<open>ExtendedHTTPResponse\<close>: the cache reads \<^verbatim>\<open>url()\<close> only;
  \<^verbatim>\<open>date\<close> is the \<^verbatim>\<open>Date.now()\<close> stamp that \<^verbatim>\<open>onPageCreated\<close> adds.
\<close>

record http_record =
  url :: string
  date :: nat

type_synonym pattern = "string \<Rightarrow> bool"

text \<open>
  A JavaScript \<^verbatim>\<open>Error\<close>: its message and the optional \<^verbatim>\<open>cause\<close> of
  \<^verbatim>\<open>new Error(message, {cause})\<close>, which for a wait would hold the pattern and the
  timeout.
\<close>

record js_error =
  message :: string
  cause :: "(pattern \<times> int) option"

text \<open>
  What a call of a validator function yields in the end: the boolean it returns (at
  once, or as the value of the promise it returns), or the error it throws (at once, or
  as the rejection of that promise).
\<close>

datatype verdict = Returns bool | Throws js_error

subsection \<open>Listeners, promises, timers\<close>

text \<open>
  The functions registered on the emitter: the listener that the constructor installs
  for each event, and the closure \<^verbatim>\<open>listener\<close> of each call of a wait method, named by
  the number of that call.
\<close>

datatype listener = StoreListener | WaitListener nat

datatype settlement = Pending | Resolved http_record | Rejected js_error

datatype timer = NotCreated | Armed | Cleared | Fired

text \<open>
  One call of \<^verbatim>\<open>waitRequest\<close> or \<^verbatim>\<open>waitResponse\<close>: what its closures capture
  (\<^verbatim>\<open>urlRegex\<close>, \<^verbatim>\<open>timeout\<close>, \<^verbatim>\<open>timeoutTimer\<close>) and the promise it returns.
  \<open>settle_calls\<close> counts the calls of \<^verbatim>\<open>resolve\<close> and \<^verbatim>\<open>reject\<close> on that promise.
\<close>

record wait_call =
  wkind :: kind
  urlRegex :: pattern
  timeout :: int
  timeoutTimer :: timer
  promise :: settlement
  settle_calls :: nat

text \<open>
  The fields of \<^verbatim>\<open>NetworkCache\<close>. The emitter is its two listener arrays.
  \<open>suspended\<close> holds the store listeners that wait at \<^verbatim>\<open>await this.requestValidatorFn(request)\<close>
  (or the response one), each with the verdict it will resume with;
  \<open>unhandled_rejections\<close> collects the errors of rejected promises that no code handles.
\<close>

record network_cache =
  cacheLimit :: int
  requests :: "http_record list"
  responses :: "http_record list"
  requestValidatorFn :: "http_record \<Rightarrow> verdict"
  responseValidatorFn :: "http_record \<Rightarrow> verdict"
  request_listeners :: "listener list"
  response_listeners :: "listener list"
  wait_calls :: "wait_call list"
  suspended :: "(kind \<times> http_record \<times> verdict) list"
  unhandled_rejections :: "js_error list"

text \<open>The field initialisers and the constructor: \<^verbatim>\<open>new NetworkCache()\<close>.\<close>

definition new_cache :: network_cache where
  "new_cache =
     \<lparr>cacheLimit = 100, requests = [], responses = [],
      requestValidatorFn = (\<lambda>_. Returns True),
      responseValidatorFn = (\<lambda>_. Returns True),
      request_listeners = [StoreListener],
      response_listeners = [StoreListener],
      wait_calls = [], suspended = [], unhandled_rejections = []\<rparr>"

subsection \<open>Access by event name\<close>

fun store :: "kind \<Rightarrow> network_cache \<Rightarrow> http_record list" where
  "store Request c = requests c"
| "store Response c = responses c"

fun set_store :: "kind \<Rightarrow> http_record list \<Rightarrow> network_cache \<Rightarrow> network_cache" where
  "set_store Request xs c = c\<lparr>requests := xs\<rparr>"
| "set_store Response xs c = c\<lparr>responses := xs\<rparr>"

fun validatorFn :: "kind \<Rightarrow> network_cache \<Rightarrow> http_record \<Rightarrow> verdict" where
  "validatorFn Request c = requestValidatorFn c"
| "validatorFn Response c = responseValidatorFn c"

fun listeners :: "kind \<Rightarrow> network_cache \<Rightarrow> listener list" where
  "listeners Request c = request_listeners c"
| "listeners Response c = response_listeners c"

fun set_listeners :: "kind \<Rightarrow> listener list \<Rightarrow> network_cache \<Rightarrow> network_cache" where
  "set_listeners Request ls c = c\<lparr>request_listeners := ls\<rparr>"
| "set_listeners Response ls c = c\<lparr>response_listeners := ls\<rparr>"

subsection \<open>The bounded store\<close>

text \<open>
  \<^verbatim>\<open>Array.prototype.slice(start)\<close> with an integer argument: a negative \<^verbatim>\<open>start\<close>
  counts from the end and is clamped at 0, another one is clamped at the length.
\<close>

definition slice_from :: "int \<Rightarrow> 'a list \<Rightarrow> 'a list" where
  "slice_from start xs =
     (let len = int (length xs);
          k = (if start < 0 then max (len + start) 0 else min start len)
      in drop (nat k) xs)"

text \<open>
  The body of the store listener under its \<^verbatim>\<open>if\<close>:
  \<^verbatim>\<open>this.requests.push(request);
  if (this.requests.length > this.cacheLimit) this.requests = this.requests.slice(-this.cacheLimit);\<close>
\<close>

definition push_slice :: "int \<Rightarrow> 'a \<Rightarrow> 'a list \<Rightarrow> 'a list" where
  "push_slice limit r xs =
     (let ys = xs @ [r]
      in if int (length ys) > limit then slice_from (- limit) ys else ys)"

definition save :: "kind \<Rightarrow> http_record \<Rightarrow> network_cache \<Rightarrow> network_cache" where
  "save k r c = set_store k (push_slice (cacheLimit c) r (store k c)) c"

text \<open>
  A store listener resumes after its \<^verbatim>\<open>await\<close>: with \<^verbatim>\<open>true\<close> it saves the record, with
  \<^verbatim>\<open>false\<close> it does nothing, and with an error the promise of the \<^verbatim>\<open>async\<close> listener is
  rejected; the emitter has dropped that promise, so nothing handles the rejection.
\<close>

fun resume_listener :: "kind \<times> http_record \<times> verdict \<Rightarrow> network_cache \<Rightarrow> network_cache" where
  "resume_listener (k, r, Returns b) c = (if b then save k r c else c)"
| "resume_listener (k, r, Throws e) c =
     c\<lparr>unhandled_rejections := unhandled_rejections c @ [e]\<rparr>"

definition resume :: "nat \<Rightarrow> network_cache \<Rightarrow> network_cache" where
  "resume i c =
     (if i < length (suspended c)
      then resume_listener (suspended c ! i)
             (c\<lparr>suspended := take i (suspended c) @ drop (Suc i) (suspended c)\<rparr>)
      else c)"

subsection \<open>existRequest and existResponse\<close>

definition existRequest :: "pattern \<Rightarrow> network_cache \<Rightarrow> http_record option" where
  "existRequest rx c = find (\<lambda>request. rx (url request)) (requests c)"

definition existResponse :: "pattern \<Rightarrow> network_cache \<Rightarrow> http_record option" where
  "existResponse rx c = find (\<lambda>response. rx (url response)) (responses c)"

fun exist :: "kind \<Rightarrow> pattern \<Rightarrow> network_cache \<Rightarrow> http_record option" where
  "exist Request rx c = existRequest rx c"
| "exist Response rx c = existResponse rx c"

subsection \<open>Emitter, promise and timer primitives\<close>

text \<open>
  \<^verbatim>\<open>on\<close> appends; \<^verbatim>\<open>removeListener\<close> removes one instance of the listener, the one added
  last.
\<close>

definition on :: "kind \<Rightarrow> listener \<Rightarrow> network_cache \<Rightarrow> network_cache" where
  "on k l c = set_listeners k (listeners k c @ [l]) c"

definition removeListener :: "kind \<Rightarrow> listener \<Rightarrow> network_cache \<Rightarrow> network_cache" where
  "removeListener k l c = set_listeners k (rev (remove1 l (rev (listeners k c)))) c"

text \<open>
  \<^verbatim>\<open>resolve\<close> and \<^verbatim>\<open>reject\<close> of a promise: the first call settles it, a later call changes
  nothing. Each call is counted.
\<close>

definition settle :: "nat \<Rightarrow> settlement \<Rightarrow> network_cache \<Rightarrow> network_cache" where
  "settle w s c =
     c\<lparr>wait_calls := (wait_calls c)
        [w := (let pw = wait_calls c ! w
               in pw\<lparr>promise := (case promise pw of Pending \<Rightarrow> s | _ \<Rightarrow> promise pw),
                     settle_calls := Suc (settle_calls pw)\<rparr>)]\<rparr>"

definition set_timer :: "nat \<Rightarrow> timer \<Rightarrow> network_cache \<Rightarrow> network_cache" where
  "set_timer w t c =
     c\<lparr>wait_calls := (wait_calls c)[w := (wait_calls c ! w)\<lparr>timeoutTimer := t\<rparr>]\<rparr>"

definition setTimeout :: "nat \<Rightarrow> network_cache \<Rightarrow> network_cache" where
  "setTimeout w c = set_timer w Armed c"

definition clearTimeout :: "nat \<Rightarrow> network_cache \<Rightarrow> network_cache" where
  "clearTimeout w c =
     (if timeoutTimer (wait_calls c ! w) = Armed then set_timer w Cleared c else c)"

subsection \<open>waitRequest and waitResponse\<close>

text \<open>
  The closure \<^verbatim>\<open>listener\<close> of wait call \<open>w\<close>:
  \<^verbatim>\<open>if (urlRegex.test(request.url())) { clearTimeout(timeoutTimer);
  this.eventEmitter.removeListener('request', listener); resolve(request); }\<close>
  The closure exists only once call \<open>w\<close> has been made: the invariant below states that
  every registered listener names an existing call.
\<close>

definition wait_listener :: "kind \<Rightarrow> nat \<Rightarrow> http_record \<Rightarrow> network_cache \<Rightarrow> network_cache" where
  "wait_listener k w r c =
     (if urlRegex (wait_calls c ! w) (url r)
      then settle w (Resolved r) (removeListener k (WaitListener w) (clearTimeout w c))
      else c)"

text \<open>\<^verbatim>\<open>new Error('Timeout wait request')\<close> and \<^verbatim>\<open>new Error('Timeout wait response')\<close>.\<close>

fun timeout_error :: "kind \<Rightarrow> js_error" where
  "timeout_error Request = \<lparr>message = ''Timeout wait request'', cause = None\<rparr>"
| "timeout_error Response = \<lparr>message = ''Timeout wait response'', cause = None\<rparr>"

text \<open>
  The callback of \<^verbatim>\<open>setTimeout\<close> of wait call \<open>w\<close>. The runtime calls it only while the
  timer is armed; the call disarms the timer.
\<close>

definition fire :: "nat \<Rightarrow> network_cache \<Rightarrow> network_cache" where
  "fire w c =
     (if w < length (wait_calls c) \<and> timeoutTimer (wait_calls c ! w) = Armed
      then let k = wkind (wait_calls c ! w)
           in settle w (Rejected (timeout_error k))
                (removeListener k (WaitListener w) (set_timer w Fired c))
      else c)"

text \<open>
  The executor of the promise that a wait method returns. The call gets the next free
  number \<open>w\<close>; its promise starts pending, with no timer.
\<close>

definition wait :: "kind \<Rightarrow> pattern \<Rightarrow> int \<Rightarrow> network_cache \<Rightarrow> network_cache" where
  "wait k rx t c =
     (let w = length (wait_calls c);
          c1 = c\<lparr>wait_calls := wait_calls c @
                 [\<lparr>wkind = k, urlRegex = rx, timeout = t, timeoutTimer = NotCreated,
                   promise = Pending, settle_calls = 0\<rparr>]\<rparr>
      in case exist k rx c of
           Some r \<Rightarrow> settle w (Resolved r) c1
         | None \<Rightarrow> on k (WaitListener w) (setTimeout w c1))"

definition waitRequest :: "pattern \<Rightarrow> int \<Rightarrow> network_cache \<Rightarrow> network_cache" where
  "waitRequest rx t c = wait Request rx t c"

definition waitResponse :: "pattern \<Rightarrow> int \<Rightarrow> network_cache \<Rightarrow> network_cache" where
  "waitResponse rx t c = wait Response rx t c"

subsection \<open>emit\<close>

text \<open>
  One listener called by \<^verbatim>\<open>emit\<close>. The store listener is \<^verbatim>\<open>async\<close>: it calls the validator
  and suspends at the \<^verbatim>\<open>await\<close>, also when the validator returns a plain boolean. (If the
  validator throws at once the listener ends at once with a rejected promise; the model
  records that rejection when the listener is resumed, which no callback can tell apart.)
\<close>

fun call_listener :: "kind \<Rightarrow> http_record \<Rightarrow> listener \<Rightarrow> network_cache \<Rightarrow> network_cache" where
  "call_listener k r StoreListener c =
     c\<lparr>suspended := suspended c @ [(k, r, validatorFn k c r)]\<rparr>"
| "call_listener k r (WaitListener w) c = wait_listener k w r c"

text \<open>
  \<^verbatim>\<open>eventEmitter.emit(name, record)\<close> calls the listeners registered when it starts, in
  their order of registration.
\<close>

definition emit :: "kind \<Rightarrow> http_record \<Rightarrow> network_cache \<Rightarrow> network_cache" where
  "emit k r c = fold (call_listener k r) (listeners k c) c"

subsection \<open>Executions\<close>

text \<open>
  The callbacks that the event loop runs: a page handler of \<^verbatim>\<open>onPageCreated\<close>, which stamps
  the record with \<^verbatim>\<open>date\<close> and emits it; a suspended store listener resuming (in any order,
  as validators may answer late); the timer of a wait call firing; a call of a wait
  method.
\<close>

datatype event =
    Emit kind http_record
  | Resume nat
  | Fire nat
  | Wait kind pattern int

fun step :: "event \<Rightarrow> network_cache \<Rightarrow> network_cache" where
  "step (Emit k r) c = emit k r c"
| "step (Resume i) c = resume i c"
| "step (Fire w) c = fire w c"
| "step (Wait k rx t) c = wait k rx t c"

definition run :: "event list \<Rightarrow> network_cache \<Rightarrow> network_cache" where
  "run es c = fold step es c"

text \<open>
  An ingest whose validator answers at once: the page handler emits the record, and the
  store listener that this \<^verbatim>\<open>emit\<close> suspended resumes in the next microtask, before
  any other callback.
\<close>

definition ingest :: "kind \<Rightarrow> http_record \<Rightarrow> network_cache \<Rightarrow> network_cache" where
  "ingest k r c = resume (length (suspended c)) (emit k r c)"

text \<open>Assignments to the public fields of a cache, as a set-up step does them.\<close>

definition configure ::
  "int \<Rightarrow> (http_record \<Rightarrow> verdict) \<Rightarrow> (http_record \<Rightarrow> verdict) \<Rightarrow> network_cache \<Rightarrow> network_cache" where
  "configure C vq vs c = c\<lparr>cacheLimit := C, requestValidatorFn := vq, responseValidatorFn := vs\<rparr>"

subsection \<open>The store of the earlier browser-scoped cache\<close>

text \<open>
  The earlier JavaScript version of the plugin keeps its arrays newest first:
  \<^verbatim>\<open>requests.unshift(request);
  if (requests.length > this.browserCacheLimit) requests = requests.slice(0, this.browserCacheLimit);\<close>
  \<^verbatim>\<open>slice(0, end)\<close> with an integer \<^verbatim>\<open>end\<close> clamps like \<^verbatim>\<open>slice(start)\<close>.
\<close>

definition slice_to :: "int \<Rightarrow> 'a list \<Rightarrow> 'a list" where
  "slice_to e xs =
     (let len = int (length xs);
          k = (if e < 0 then max (len + e) 0 else min e len)
      in take (nat k) xs)"

definition unshift_slice :: "int \<Rightarrow> 'a \<Rightarrow> 'a list \<Rightarrow> 'a list" where
  "unshift_slice limit r xs =
     (let ys = r # xs
      in if int (length ys) > limit then slice_to limit ys else ys)"

subsection \<open>The invariant of the wait protocol\<close>

text \<open>
  Every listener of a wait call on the emitter belongs to a pending call of that event
  name, and is registered once; the store listener of the constructor stays registered.
\<close>

fun is_pending :: "settlement \<Rightarrow> bool" where
  "is_pending Pending = True"
| "is_pending (Resolved r) = False"
| "is_pending (Rejected e) = False"

fun listener_ok :: "network_cache \<Rightarrow> kind \<Rightarrow> listener \<Rightarrow> bool" where
  "listener_ok c k StoreListener = True"
| "listener_ok c k (WaitListener w) =
     (w < length (wait_calls c) \<and> wkind (wait_calls c ! w) = k \<and>
      is_pending (promise (wait_calls c ! w)))"

definition kind_ok :: "network_cache \<Rightarrow> kind \<Rightarrow> bool" where
  "kind_ok c k \<longleftrightarrow>
     distinct (listeners k c) \<and> StoreListener \<in> set (listeners k c) \<and>
     (\<forall>l \<in> set (listeners k c). listener_ok c k l)"

definition listeners_ok :: "network_cache \<Rightarrow> bool" where
  "listeners_ok c \<longleftrightarrow> kind_ok c Request \<and> kind_ok c Response"

text \<open>
  A pending call has made no call of \<^verbatim>\<open>resolve\<close> or \<^verbatim>\<open>reject\<close>, its timer is armed and its
  listener registered; a settled call has made one such call and has no armed timer.
\<close>

definition waits_ok :: "network_cache \<Rightarrow> bool" where
  "waits_ok c \<longleftrightarrow>
     (\<forall>w < length (wait_calls c).
        if is_pending (promise (wait_calls c ! w))
        then settle_calls (wait_calls c ! w) = 0 \<and> timeoutTimer (wait_calls c ! w) = Armed \<and>
             WaitListener w \<in> set (listeners (wkind (wait_calls c ! w)) c)
        else settle_calls (wait_calls c ! w) = 1 \<and> timeoutTimer (wait_calls c ! w) \<noteq> Armed)"

definition wf :: "network_cache \<Rightarrow> bool" where
  "wf c \<longleftrightarrow> listeners_ok c \<and> waits_ok c"

text \<open>
  Derived views used in the proofs: the state after a pending call \<open>w\<close> is settled and
  cleaned up, whether a listener resolves on a record, and the entry of a call that a
  record has resolved.
\<close>

definition finish :: "kind \<Rightarrow> nat \<Rightarrow> timer \<Rightarrow> settlement \<Rightarrow> network_cache \<Rightarrow> network_cache" where
  "finish k w tm s c =
     set_listeners k (filter (\<lambda>x. x \<noteq> WaitListener w) (listeners k c))
       (c\<lparr>wait_calls := (wait_calls c)
          [w := (wait_calls c ! w)\<lparr>timeoutTimer := tm, promise := s,
                 settle_calls := Suc (settle_calls (wait_calls c ! w))\<rparr>]\<rparr>)"

fun hit :: "network_cache \<Rightarrow> http_record \<Rightarrow> listener \<Rightarrow> bool" where
  "hit c r StoreListener = False"
| "hit c r (WaitListener w) = urlRegex (wait_calls c ! w) (url r)"

definition resolved_by :: "http_record \<Rightarrow> wait_call \<Rightarrow> wait_call" where
  "resolved_by r pw = pw\<lparr>timeoutTimer := Cleared, promise := Resolved r,
                          settle_calls := Suc (settle_calls pw)\<rparr>"

text \<open>
  An event that neither times out call \<open>w\<close> nor emits a record of kind \<open>k\<close> whose URL
  matches \<open>rx\<close>.
\<close>

fun passes :: "kind \<Rightarrow> pattern \<Rightarrow> nat \<Rightarrow> event \<Rightarrow> bool" where
  "passes k rx w (Emit k' r) = (k' \<noteq> k \<or> \<not> rx (url r))"
| "passes k rx w (Fire w') = (w' \<noteq> w)"
| "passes k rx w (Resume i) = True"
| "passes k rx w (Wait k' rx' t) = True"

text \<open>
  Relative to a start state \<open>c0\<close>: the validators are those of \<open>c0\<close>, every stored
  record is one they accept, and every suspended store listener carries their verdict.
\<close>

definition accepted_only :: "network_cache \<Rightarrow> network_cache \<Rightarrow> bool" where
  "accepted_only c0 c \<longleftrightarrow>
     (\<forall>k. validatorFn k c = validatorFn k c0 \<and>
          (\<forall>r \<in> set (store k c). validatorFn k c0 r = Returns True) \<and>
          (\<forall>r v. (k, r, v) \<in> set (suspended c) \<longrightarrow> v = validatorFn k c0 r))"

subsection \<open>Example traffic\<close>

text \<open>
  Three records; the pattern that matches one URL exactly and the one that matches the
  URLs with a given prefix; a validator that accepts the records of one URL, one that
  rejects every record and one that fails on every record.
\<close>

definition rec_A :: http_record where "rec_A = \<lparr>url = ''https://x/1'', date = 10\<rparr>"
definition rec_B :: http_record where "rec_B = \<lparr>url = ''https://x/2'', date = 20\<rparr>"
definition rec_C :: http_record where "rec_C = \<lparr>url = ''https://x/3'', date = 30\<rparr>"

definition url_is :: "string \<Rightarrow> pattern" where
  "url_is s u = (u = s)"

definition url_prefix :: "string \<Rightarrow> pattern" where
  "url_prefix s u = (take (length s) u = s)"

definition accept_url :: "string \<Rightarrow> http_record \<Rightarrow> verdict" where
  "accept_url s r = Returns (url r = s)"

definition reject_all :: "http_record \<Rightarrow> verdict" where
  "reject_all r = Returns False"

definition validator_error :: js_error where
  "validator_error = \<lparr>message = ''validator failed'', cause = None\<rparr>"

definition fail_all :: "http_record \<Rightarrow> verdict" where
  "fail_all r = Throws validator_error"

section \<open>Lemmas\<close>

subsection \<open>The invariant, unfolded\<close>

lemma is_pending_iff [simp]: "is_pending s \<longleftrightarrow> s = Pending"
  by (cases s) simp_all

lemma all_kind: "(\<forall>k. P k) \<longleftrightarrow> P Request \<and> P Response"
  by (metis kind.exhaust)

lemma listeners_ok_iff:
  "listeners_ok c \<longleftrightarrow>
     (\<forall>k. distinct (listeners k c) \<and> StoreListener \<in> set (listeners k c) \<and>
          (\<forall>w. WaitListener w \<in> set (listeners k c) \<longrightarrow>
               w < length (wait_calls c) \<and> wkind (wait_calls c ! w) = k \<and>
               promise (wait_calls c ! w) = Pending))"
proof -
  have "(\<forall>l \<in> set ls. listener_ok c k l) \<longleftrightarrow>
        (\<forall>w. WaitListener w \<in> set ls \<longrightarrow>
               w < length (wait_calls c) \<and> wkind (wait_calls c ! w) = k \<and>
               promise (wait_calls c ! w) = Pending)" for ls k
  proof
    assume a: "\<forall>l \<in> set ls. listener_ok c k l"
    show "\<forall>w. WaitListener w \<in> set ls \<longrightarrow>
               w < length (wait_calls c) \<and> wkind (wait_calls c ! w) = k \<and>
               promise (wait_calls c ! w) = Pending"
    proof (intro allI impI)
      fix w assume "WaitListener w \<in> set ls"
      with a have "listener_ok c k (WaitListener w)" by blast
      then show "w < length (wait_calls c) \<and> wkind (wait_calls c ! w) = k \<and>
               promise (wait_calls c ! w) = Pending" by simp
    qed
  next
    assume a: "\<forall>w. WaitListener w \<in> set ls \<longrightarrow>
               w < length (wait_calls c) \<and> wkind (wait_calls c ! w) = k \<and>
               promise (wait_calls c ! w) = Pending"
    show "\<forall>l \<in> set ls. listener_ok c k l"
    proof
      fix l assume "l \<in> set ls"
      with a show "listener_ok c k l" by (cases l) simp_all
    qed
  qed
  then show ?thesis
    unfolding listeners_ok_def kind_ok_def by (subst all_kind) simp
qed

lemma waits_ok_iff:
  "waits_ok c \<longleftrightarrow>
     (\<forall>w < length (wait_calls c).
        if promise (wait_calls c ! w) = Pending
        then settle_calls (wait_calls c ! w) = 0 \<and> timeoutTimer (wait_calls c ! w) = Armed \<and>
             WaitListener w \<in> set (listeners (wkind (wait_calls c ! w)) c)
        else settle_calls (wait_calls c ! w) = 1 \<and> timeoutTimer (wait_calls c ! w) \<noteq> Armed)"
  by (simp add: waits_ok_def)

subsection \<open>The bounded store\<close>


lemma slice_from_neg: "0 < n \<Longrightarrow> slice_from (- n) xs = drop (length xs - nat n) xs"
  by (auto simp: slice_from_def Let_def max_def nat_diff_distrib' intro: arg_cong2[where f=drop])

lemma slice_from_zero: "slice_from 0 xs = xs"
  by (simp add: slice_from_def)

lemma push_slice_pos:
  "1 \<le> C \<Longrightarrow> push_slice C r xs = drop (Suc (length xs) - nat C) (xs @ [r])"
  by (auto simp: push_slice_def Let_def slice_from_neg)

lemma push_slice_zero: "push_slice 0 r xs = xs @ [r]"
  by (simp add: push_slice_def slice_from_zero)

lemma length_push_slice: "1 \<le> C \<Longrightarrow> int (length (push_slice C r xs)) \<le> C"
  by (auto simp: push_slice_pos)

lemma push_slice_recent:
  assumes "1 \<le> C"
  shows "push_slice C r (drop (length rs - nat C) rs) = drop (length (rs @ [r]) - nat C) (rs @ [r])"
proof (cases "length rs < nat C")
  case True
  then show ?thesis using assms by (simp add: push_slice_pos)
next
  case False
  then have "length (drop (length rs - nat C) rs) = nat C" by simp
  moreover have "0 < nat C" using assms by simp
  ultimately show ?thesis using assms False
    by (simp add: push_slice_pos Suc_diff_le)
qed



text \<open>
  With a limit of at least 1 the earlier store is the mirror image of the present one:
  the same records are retained, the newest at index 0.
\<close>

lemma unshift_slice_mirror:
  assumes "1 \<le> C"
  shows "unshift_slice C r (rev xs) = rev (push_slice C r xs)"
proof (cases "int (Suc (length xs)) > C")
  case False
  then show ?thesis by (simp add: unshift_slice_def push_slice_def)
next
  case True
  then have n: "nat C \<le> length xs" "0 < nat C" using assms by simp_all
  have "rev (push_slice C r xs) = rev (drop (Suc (length xs) - nat C) (xs @ [r]))"
    using assms by (simp only: push_slice_pos)
  also have "\<dots> = take (Suc (length xs) - (Suc (length xs) - nat C)) (rev (xs @ [r]))"
    using rev_drop[of "Suc (length xs) - nat C" "xs @ [r]"] by simp
  also have "Suc (length xs) - (Suc (length xs) - nat C) = nat C" using n by simp
  finally have "rev (push_slice C r xs) = take (nat C) (r # rev xs)" by simp
  moreover have "unshift_slice C r (rev xs) = take (nat C) (r # rev xs)"
    using True assms by (simp add: unshift_slice_def slice_to_def Let_def min_def)
  ultimately show ?thesis by simp
qed

subsection \<open>What each primitive leaves unchanged\<close>

lemma listeners_update [simp]:
  "listeners k (c\<lparr>wait_calls := ws\<rparr>) = listeners k c"
  "listeners k (c\<lparr>suspended := js\<rparr>) = listeners k c"
  "listeners k (c\<lparr>unhandled_rejections := us\<rparr>) = listeners k c"
  "listeners k (set_store k' xs c) = listeners k c"
  "listeners k (set_listeners k' ls c) = (if k = k' then ls else listeners k c)"
  by (cases k; cases k'; simp)+

lemma store_update [simp]:
  "store k (c\<lparr>wait_calls := ws\<rparr>) = store k c"
  "store k (c\<lparr>suspended := js\<rparr>) = store k c"
  "store k (c\<lparr>unhandled_rejections := us\<rparr>) = store k c"
  "store k (set_listeners k' ls c) = store k c"
  "store k (set_store k' xs c) = (if k = k' then xs else store k c)"
  by (cases k; cases k'; simp)+

lemma validatorFn_update [simp]:
  "validatorFn k (c\<lparr>wait_calls := ws\<rparr>) = validatorFn k c"
  "validatorFn k (c\<lparr>suspended := js\<rparr>) = validatorFn k c"
  "validatorFn k (c\<lparr>unhandled_rejections := us\<rparr>) = validatorFn k c"
  "validatorFn k (set_listeners k' ls c) = validatorFn k c"
  "validatorFn k (set_store k' xs c) = validatorFn k c"
  by (cases k; cases k'; simp)+

lemma set_listeners_fields [simp]:
  "wait_calls (set_listeners k ls c) = wait_calls c"
  "suspended (set_listeners k ls c) = suspended c"
  "unhandled_rejections (set_listeners k ls c) = unhandled_rejections c"
  "cacheLimit (set_listeners k ls c) = cacheLimit c"
  "requests (set_listeners k ls c) = requests c"
  "responses (set_listeners k ls c) = responses c"
  by (cases k; simp)+

lemma set_store_fields [simp]:
  "wait_calls (set_store k xs c) = wait_calls c"
  "suspended (set_store k xs c) = suspended c"
  "unhandled_rejections (set_store k xs c) = unhandled_rejections c"
  "cacheLimit (set_store k xs c) = cacheLimit c"
  "request_listeners (set_store k xs c) = request_listeners c"
  "response_listeners (set_store k xs c) = response_listeners c"
  by (cases k; simp)+

lemmas prim_defs = settle_def set_timer_def setTimeout_def clearTimeout_def
  removeListener_def on_def

lemma wait_listener_frame [simp]:
  "store k' (wait_listener k w r c) = store k' c"
  "cacheLimit (wait_listener k w r c) = cacheLimit c"
  "validatorFn k' (wait_listener k w r c) = validatorFn k' c"
  "suspended (wait_listener k w r c) = suspended c"
  "unhandled_rejections (wait_listener k w r c) = unhandled_rejections c"
  "length (wait_calls (wait_listener k w r c)) = length (wait_calls c)"
  by (simp_all add: wait_listener_def prim_defs)

lemma call_listener_frame [simp]:
  "store k' (call_listener k r l c) = store k' c"
  "cacheLimit (call_listener k r l c) = cacheLimit c"
  "validatorFn k' (call_listener k r l c) = validatorFn k' c"
  "unhandled_rejections (call_listener k r l c) = unhandled_rejections c"
  "length (wait_calls (call_listener k r l c)) = length (wait_calls c)"
  by (cases l; simp)+

lemma fold_call_listener_frame:
  "store k' (fold (call_listener k r) ls c) = store k' c \<and>
   cacheLimit (fold (call_listener k r) ls c) = cacheLimit c \<and>
   validatorFn k' (fold (call_listener k r) ls c) = validatorFn k' c \<and>
   unhandled_rejections (fold (call_listener k r) ls c) = unhandled_rejections c \<and>
   length (wait_calls (fold (call_listener k r) ls c)) = length (wait_calls c)"
  by (induction ls arbitrary: c) simp_all

lemma emit_frame [simp]:
  "store k' (emit k r c) = store k' c"
  "cacheLimit (emit k r c) = cacheLimit c"
  "validatorFn k' (emit k r c) = validatorFn k' c"
  "unhandled_rejections (emit k r c) = unhandled_rejections c"
  "length (wait_calls (emit k r c)) = length (wait_calls c)"
  by (simp_all add: emit_def fold_call_listener_frame)

lemma fold_call_listener_suspended:
  "suspended (fold (call_listener k r) ls c) =
     suspended c @ map (\<lambda>_. (k, r, validatorFn k c r)) (filter (\<lambda>l. l = StoreListener) ls)"
proof (induction ls arbitrary: c)
  case Nil
  show ?case by simp
next
  case (Cons l ls)
  show ?case by (cases l) (simp_all add: Cons.IH)
qed



lemma remove_last_distinct:
  "distinct ls \<Longrightarrow> rev (remove1 l (rev ls)) = filter (\<lambda>x. x \<noteq> l) ls"
proof -
  have "(\<lambda>x. x \<noteq> l) = (\<noteq>) l" by auto
  then show ?thesis if "distinct ls"
    using that by (simp add: distinct_remove1_removeAll removeAll_filter_not_eq rev_filter)
qed

lemma listeners_new_cache [simp]: "listeners k new_cache = [StoreListener]"
  by (cases k) (simp_all add: new_cache_def)

lemma wf_new_cache: "wf new_cache"
  by (simp add: wf_def listeners_ok_iff waits_ok_iff) (simp add: new_cache_def)

lemma listeners_config [simp]:
  "listeners k (c\<lparr>cacheLimit := C\<rparr>) = listeners k c"
  "listeners k (c\<lparr>requestValidatorFn := vq\<rparr>) = listeners k c"
  "listeners k (c\<lparr>responseValidatorFn := vs\<rparr>) = listeners k c"
  by (cases k; simp)+

lemma wf_config:
  "wf c \<Longrightarrow> wf (c\<lparr>cacheLimit := C, requestValidatorFn := vq, responseValidatorFn := vs\<rparr>)"
  by (simp add: wf_def listeners_ok_iff waits_ok_iff)

lemma resume_frame [simp]:
  "listeners k (resume i c) = listeners k c"
  "wait_calls (resume i c) = wait_calls c"
  "cacheLimit (resume i c) = cacheLimit c"
  "validatorFn k (resume i c) = validatorFn k c"
proof -
  have *: "listeners k (resume_listener j c') = listeners k c' \<and>
           wait_calls (resume_listener j c') = wait_calls c' \<and>
           cacheLimit (resume_listener j c') = cacheLimit c' \<and>
           validatorFn k (resume_listener j c') = validatorFn k c'" for j c'
    by (cases "(j, c')" rule: resume_listener.cases) (simp_all add: save_def)
  show "listeners k (resume i c) = listeners k c"
    "wait_calls (resume i c) = wait_calls c"
    "cacheLimit (resume i c) = cacheLimit c"
    "validatorFn k (resume i c) = validatorFn k c"
    by (simp_all add: resume_def *)
qed

lemma wf_resume: "wf c \<Longrightarrow> wf (resume i c)"
  by (simp add: wf_def listeners_ok_iff waits_ok_iff)



lemma listeners_okD:
  assumes "listeners_ok c" "WaitListener w \<in> set (listeners k c)"
  shows "w < length (wait_calls c)" "wkind (wait_calls c ! w) = k"
    "promise (wait_calls c ! w) = Pending"
  using assms unfolding listeners_ok_iff by blast+

lemma listeners_ok_distinct: "listeners_ok c \<Longrightarrow> distinct (listeners k c)"
  unfolding listeners_ok_iff by blast

lemma listeners_ok_store: "listeners_ok c \<Longrightarrow> StoreListener \<in> set (listeners k c)"
  unfolding listeners_ok_iff by blast

lemma waits_okD:
  assumes "waits_ok c" "w < length (wait_calls c)"
  shows "promise (wait_calls c ! w) = Pending \<Longrightarrow> settle_calls (wait_calls c ! w) = 0"
    "promise (wait_calls c ! w) = Pending \<Longrightarrow> timeoutTimer (wait_calls c ! w) = Armed"
    "promise (wait_calls c ! w) = Pending \<Longrightarrow>
       WaitListener w \<in> set (listeners (wkind (wait_calls c ! w)) c)"
    "promise (wait_calls c ! w) \<noteq> Pending \<Longrightarrow> settle_calls (wait_calls c ! w) = 1"
    "promise (wait_calls c ! w) \<noteq> Pending \<Longrightarrow> timeoutTimer (wait_calls c ! w) \<noteq> Armed"
  using assms unfolding waits_ok_iff by (auto split: if_splits)

lemma wait_found:
  assumes "exist k rx c = Some r"
  shows "wait k rx t c = c\<lparr>wait_calls := wait_calls c @
           [\<lparr>wkind = k, urlRegex = rx, timeout = t, timeoutTimer = NotCreated,
             promise = Resolved r, settle_calls = 1\<rparr>]\<rparr>"
  using assms by (simp add: wait_def Let_def settle_def)

lemma wait_not_found:
  assumes "exist k rx c = None"
  shows "wait k rx t c = set_listeners k (listeners k c @ [WaitListener (length (wait_calls c))])
           (c\<lparr>wait_calls := wait_calls c @
              [\<lparr>wkind = k, urlRegex = rx, timeout = t, timeoutTimer = Armed,
                promise = Pending, settle_calls = 0\<rparr>]\<rparr>)"
  using assms by (simp add: wait_def Let_def prim_defs)

lemma wf_wait:
  assumes "wf c"
  shows "wf (wait k rx t c)"
proof -
  let ?n = "length (wait_calls c)"
  have lok: "listeners_ok c" and wok: "waits_ok c" using assms by (simp_all add: wf_def)
  note D = listeners_okD[OF lok]
  have fresh: "WaitListener ?n \<notin> set (listeners k' c)" for k'
    using D(1)[of ?n k'] by auto
  show ?thesis
  proof (cases "exist k rx c")
    case None
    have "listeners_ok (wait k rx t c)"
      unfolding listeners_ok_iff wait_not_found[OF None]
      using fresh listeners_ok_distinct[OF lok] listeners_ok_store[OF lok] D
      by (auto simp: nth_append less_Suc_eq)
    moreover have "waits_ok (wait k rx t c)"
      unfolding waits_ok_iff wait_not_found[OF None]
      using waits_okD[OF wok]
      by (auto simp: nth_append less_Suc_eq)
    ultimately show ?thesis by (simp add: wf_def)
  next
    case (Some r)
    have "listeners_ok (wait k rx t c)"
      unfolding listeners_ok_iff wait_found[OF Some]
      using listeners_ok_distinct[OF lok] listeners_ok_store[OF lok] D
      by (auto simp: nth_append less_Suc_eq)
    moreover have "waits_ok (wait k rx t c)"
      unfolding waits_ok_iff wait_found[OF Some]
      using waits_okD[OF wok]
      by (auto simp: nth_append less_Suc_eq)
    ultimately show ?thesis by (simp add: wf_def)
  qed
qed



lemma settle_remove_timer:
  assumes "w < length (wait_calls c)" "promise (wait_calls c ! w) = Pending"
    "distinct (listeners k c)"
  shows "settle w s (removeListener k (WaitListener w) (set_timer w tm c)) = finish k w tm s c"
  using assms by (cases k) (simp_all add: finish_def prim_defs remove_last_distinct)

lemma finish_fields [simp]:
  "listeners k' (finish k w tm s c) =
     (if k' = k then filter (\<lambda>x. x \<noteq> WaitListener w) (listeners k c) else listeners k' c)"
  "wait_calls (finish k w tm s c) = (wait_calls c)
          [w := (wait_calls c ! w)\<lparr>timeoutTimer := tm, promise := s,
                 settle_calls := Suc (settle_calls (wait_calls c ! w))\<rparr>]"
  "store k' (finish k w tm s c) = store k' c"
  "cacheLimit (finish k w tm s c) = cacheLimit c"
  "validatorFn k' (finish k w tm s c) = validatorFn k' c"
  "suspended (finish k w tm s c) = suspended c"
  "unhandled_rejections (finish k w tm s c) = unhandled_rejections c"
  by (simp_all add: finish_def)

lemma wf_finish:
  assumes "wf c" "w < length (wait_calls c)" "promise (wait_calls c ! w) = Pending"
    "tm \<noteq> Armed" "s \<noteq> Pending"
  shows "wf (finish (wkind (wait_calls c ! w)) w tm s c)"
proof -
  have lok: "listeners_ok c" and wok: "waits_ok c" using assms by (simp_all add: wf_def)
  note D = listeners_okD[OF lok]
  have "listeners_ok (finish (wkind (wait_calls c ! w)) w tm s c)"
    unfolding listeners_ok_iff
    using listeners_ok_distinct[OF lok] listeners_ok_store[OF lok] D assms(2)
    by (auto simp: nth_list_update)
  moreover have "waits_ok (finish (wkind (wait_calls c ! w)) w tm s c)"
    unfolding waits_ok_iff
  proof (intro allI impI)
    fix v
    assume "v < length (wait_calls (finish (wkind (wait_calls c ! w)) w tm s c))"
    then have v: "v < length (wait_calls c)" by simp
    show "if promise (wait_calls (finish (wkind (wait_calls c ! w)) w tm s c) ! v) = Pending
        then settle_calls (wait_calls (finish (wkind (wait_calls c ! w)) w tm s c) ! v) = 0 \<and>
             timeoutTimer (wait_calls (finish (wkind (wait_calls c ! w)) w tm s c) ! v) = Armed \<and>
             WaitListener v \<in> set (listeners (wkind (wait_calls (finish (wkind (wait_calls c ! w)) w tm s c) ! v))
                (finish (wkind (wait_calls c ! w)) w tm s c))
        else settle_calls (wait_calls (finish (wkind (wait_calls c ! w)) w tm s c) ! v) = 1 \<and>
             timeoutTimer (wait_calls (finish (wkind (wait_calls c ! w)) w tm s c) ! v) \<noteq> Armed"
    proof (cases "v = w")
      case True
      then show ?thesis
        using assms(2-) waits_okD(1)[OF wok assms(2,3)] by simp
    next
      case False
      then show ?thesis
        using waits_okD[OF wok v] by (cases "promise (wait_calls c ! v) = Pending") auto
    qed
  qed
  ultimately show ?thesis by (simp add: wf_def)
qed

lemma fire_armed:
  assumes "wf c" "w < length (wait_calls c)" "timeoutTimer (wait_calls c ! w) = Armed"
  shows "promise (wait_calls c ! w) = Pending"
    "fire w c = finish (wkind (wait_calls c ! w)) w Fired
                  (Rejected (timeout_error (wkind (wait_calls c ! w)))) c"
proof -
  have lok: "listeners_ok c" and wok: "waits_ok c" using assms by (simp_all add: wf_def)
  show p: "promise (wait_calls c ! w) = Pending"
    using waits_okD(5)[OF wok assms(2)] assms(3) by blast
  have "settle w s (removeListener k (WaitListener w) (set_timer w Fired c)) = finish k w Fired s c"
    for s k
    by (rule settle_remove_timer[OF assms(2) p listeners_ok_distinct[OF lok]])
  then show "fire w c = finish (wkind (wait_calls c ! w)) w Fired
                  (Rejected (timeout_error (wkind (wait_calls c ! w)))) c"
    using assms by (simp add: fire_def Let_def)
qed

lemma fire_not_armed:
  "\<not> (w < length (wait_calls c) \<and> timeoutTimer (wait_calls c ! w) = Armed) \<Longrightarrow> fire w c = c"
  by (auto simp: fire_def)

lemma wf_fire:
  assumes "wf c"
  shows "wf (fire w c)"
proof (cases "w < length (wait_calls c) \<and> timeoutTimer (wait_calls c ! w) = Armed")
  case True
  then show ?thesis
    using fire_armed[OF assms, of w] wf_finish[OF assms, of w Fired] by simp
next
  case False
  then show ?thesis using assms by (simp add: fire_not_armed)
qed

lemma wait_listener_hit:
  assumes "wf c" "WaitListener w \<in> set (listeners k c)" "urlRegex (wait_calls c ! w) (url r)"
  shows "wait_listener k w r c = finish k w Cleared (Resolved r) c"
proof -
  have lok: "listeners_ok c" and wok: "waits_ok c" using assms by (simp_all add: wf_def)
  note D = listeners_okD[OF lok assms(2)]
  have armed: "timeoutTimer (wait_calls c ! w) = Armed"
    using waits_okD(2)[OF wok D(1) D(3)] .
  then have "clearTimeout w c = set_timer w Cleared c" by (simp add: clearTimeout_def)
  then show ?thesis
    using assms(3) settle_remove_timer[OF D(1) D(3) listeners_ok_distinct[OF lok], of "Resolved r" k Cleared]
    by (simp add: wait_listener_def)
qed

lemma wait_listener_miss:
  "\<not> urlRegex (wait_calls c ! w) (url r) \<Longrightarrow> wait_listener k w r c = c"
  by (simp add: wait_listener_def)

lemma wf_wait_listener:
  assumes "wf c" "WaitListener w \<in> set (listeners k c)"
  shows "wf (wait_listener k w r c)"
proof (cases "urlRegex (wait_calls c ! w) (url r)")
  case True
  have lok: "listeners_ok c" using assms by (simp add: wf_def)
  note D = listeners_okD[OF lok assms(2)]
  show ?thesis
    using wait_listener_hit[OF assms True] wf_finish[OF assms(1) D(1) D(3), of Cleared "Resolved r"] D(2)
    by simp
next
  case False
  then show ?thesis using assms by (simp add: wait_listener_miss)
qed



lemma call_listener_cases:
  assumes "wf c" "l \<in> set (listeners k c)"
  shows "call_listener k r l c =
           (if hit c r l then finish k (case l of WaitListener w \<Rightarrow> w) Cleared (Resolved r) c
            else if l = StoreListener then c\<lparr>suspended := suspended c @ [(k, r, validatorFn k c r)]\<rparr>
            else c)"
  using assms by (cases l) (simp_all add: wait_listener_hit wait_listener_miss)

lemma wf_call_listener:
  assumes "wf c" "l \<in> set (listeners k c)"
  shows "wf (call_listener k r l c)"
proof (cases l)
  case StoreListener
  then show ?thesis using assms(1) by (simp add: wf_def listeners_ok_iff waits_ok_iff)
next
  case (WaitListener w)
  then show ?thesis using wf_wait_listener[OF assms(1), of w k r] assms(2) by simp
qed

lemma call_listener_listeners:
  assumes "wf c" "l \<in> set (listeners k c)"
  shows "listeners k' (call_listener k r l c) =
           (if k' = k \<and> hit c r l then filter (\<lambda>x. x \<noteq> l) (listeners k c) else listeners k' c)"
proof (cases "hit c r l")
  case True
  then show ?thesis using assms by (cases l) (simp_all add: wait_listener_hit)
next
  case False
  then show ?thesis by (cases l) (simp_all add: wait_listener_miss)
qed

lemma call_listener_wait_calls:
  assumes "wf c" "l \<in> set (listeners k c)"
  shows "wait_calls (call_listener k r l c) =
           (case l of StoreListener \<Rightarrow> wait_calls c
            | WaitListener w \<Rightarrow>
                if hit c r l then (wait_calls c)[w := resolved_by r (wait_calls c ! w)]
                else wait_calls c)"
  using assms by (cases l) (simp_all add: wait_listener_hit wait_listener_miss resolved_by_def)

lemma urlRegex_resolved_by [simp]: "urlRegex (resolved_by r pw) = urlRegex pw"
  by (simp add: resolved_by_def)

lemma hit_after_call:
  assumes "wf c" "l \<in> set (listeners k c)" "l' \<noteq> l"
  shows "hit (call_listener k r l c) r l' = hit c r l'"
proof (cases l')
  case StoreListener
  then show ?thesis by simp
next
  case (WaitListener v)
  then show ?thesis
    using assms(3) call_listener_wait_calls[OF assms(1,2), of r]
    by (cases l) (auto simp: nth_list_update)
qed

lemma fold_call_listener:
  assumes "wf c" "distinct ls" "set ls \<subseteq> set (listeners k c)"
  shows "wf (fold (call_listener k r) ls c) \<and>
         (\<forall>k'. listeners k' (fold (call_listener k r) ls c) =
            (if k' = k then filter (\<lambda>x. \<not> (x \<in> set ls \<and> hit c r x)) (listeners k c)
             else listeners k' c)) \<and>
         (\<forall>v < length (wait_calls c). wait_calls (fold (call_listener k r) ls c) ! v =
            (if WaitListener v \<in> set ls \<and> hit c r (WaitListener v)
             then resolved_by r (wait_calls c ! v) else wait_calls c ! v))"
  using assms
proof (induction ls arbitrary: c)
  case Nil
  then show ?case by simp
next
  case (Cons l ls)
  let ?c1 = "call_listener k r l c"
  have l: "l \<in> set (listeners k c)" and nl: "l \<notin> set ls" and d: "distinct ls"
    using Cons.prems by auto
  have wf1: "wf ?c1" by (rule wf_call_listener[OF Cons.prems(1) l])
  have L1: "listeners k' ?c1 =
      (if k' = k \<and> hit c r l then filter (\<lambda>x. x \<noteq> l) (listeners k c) else listeners k' c)" for k'
    by (rule call_listener_listeners[OF Cons.prems(1) l])
  have sub1: "set ls \<subseteq> set (listeners k ?c1)"
    using Cons.prems(3) nl by (auto simp: L1)
  note IH = Cons.IH[OF wf1 d sub1]
  have H: "hit ?c1 r x = hit c r x" if "x \<in> set ls" for x
    using hit_after_call[OF Cons.prems(1) l, of x r] that nl by auto
  have A: "wf (fold (call_listener k r) (l # ls) c)" using IH by simp
  have B: "listeners k' (fold (call_listener k r) (l # ls) c) =
            (if k' = k then filter (\<lambda>x. \<not> (x \<in> set (l # ls) \<and> hit c r x)) (listeners k c)
             else listeners k' c)" for k'
  proof -
    have "listeners k' (fold (call_listener k r) (l # ls) c) =
        (if k' = k then filter (\<lambda>x. \<not> (x \<in> set ls \<and> hit ?c1 r x)) (listeners k ?c1)
         else listeners k' ?c1)"
      using IH by simp
    also have "\<dots> = (if k' = k then filter (\<lambda>x. \<not> (x \<in> set (l # ls) \<and> hit c r x)) (listeners k c)
             else listeners k' c)"
      using H by (auto simp: L1 intro!: filter_cong)
    finally show ?thesis .
  qed
  have C: "wait_calls (fold (call_listener k r) (l # ls) c) ! v =
            (if WaitListener v \<in> set (l # ls) \<and> hit c r (WaitListener v)
             then resolved_by r (wait_calls c ! v) else wait_calls c ! v)"
    if v: "v < length (wait_calls c)" for v
  proof -
    have v1: "v < length (wait_calls ?c1)" using v by simp
    have entry1: "wait_calls ?c1 ! v =
        (if l = WaitListener v \<and> hit c r l then resolved_by r (wait_calls c ! v)
         else wait_calls c ! v)"
      using v call_listener_wait_calls[OF Cons.prems(1) l, of r]
      by (cases l; cases "l = WaitListener v") (auto simp: nth_list_update)
    have "wait_calls (fold (call_listener k r) (l # ls) c) ! v =
        (if WaitListener v \<in> set ls \<and> hit ?c1 r (WaitListener v)
         then resolved_by r (wait_calls ?c1 ! v) else wait_calls ?c1 ! v)"
      using IH v1 by simp
    also have "\<dots> = (if WaitListener v \<in> set (l # ls) \<and> hit c r (WaitListener v)
             then resolved_by r (wait_calls c ! v) else wait_calls c ! v)"
    proof (cases "WaitListener v \<in> set ls")
      case True
      then have "l \<noteq> WaitListener v" using nl by auto
      then show ?thesis using True H[OF True] entry1 by simp
    next
      case False
      then show ?thesis using entry1 by auto
    qed
    finally show ?thesis .
  qed
  show ?case using A B C by blast
qed



lemma wf_emit: "wf c \<Longrightarrow> wf (emit k r c)"
  using fold_call_listener[of c "listeners k c" k r]
  by (simp add: emit_def wf_def listeners_ok_distinct)

lemma emit_listeners:
  assumes "wf c"
  shows "listeners k' (emit k r c) =
           (if k' = k then filter (\<lambda>x. \<not> hit c r x) (listeners k c) else listeners k' c)"
proof -
  have "distinct (listeners k c)" using assms by (simp add: wf_def listeners_ok_distinct)
  from fold_call_listener[OF assms this subset_refl, of r]
  have "listeners k' (emit k r c) =
      (if k' = k then filter (\<lambda>x. \<not> (x \<in> set (listeners k c) \<and> hit c r x)) (listeners k c)
       else listeners k' c)"
    by (simp add: emit_def)
  also have "filter (\<lambda>x. \<not> (x \<in> set (listeners k c) \<and> hit c r x)) (listeners k c) =
             filter (\<lambda>x. \<not> hit c r x) (listeners k c)"
    by (rule filter_cong) auto
  finally show ?thesis .
qed

lemma listener_iff_pending:
  assumes "wf c" "w < length (wait_calls c)"
  shows "WaitListener w \<in> set (listeners k c) \<longleftrightarrow>
           promise (wait_calls c ! w) = Pending \<and> wkind (wait_calls c ! w) = k"
proof -
  have lok: "listeners_ok c" and wok: "waits_ok c" using assms by (simp_all add: wf_def)
  show ?thesis
    using listeners_okD[OF lok, of w k] waits_okD(3)[OF wok assms(2)] by auto
qed

lemma emit_wait_call:
  assumes "wf c" "w < length (wait_calls c)"
  shows "wait_calls (emit k r c) ! w =
           (if promise (wait_calls c ! w) = Pending \<and> wkind (wait_calls c ! w) = k \<and>
               urlRegex (wait_calls c ! w) (url r)
            then resolved_by r (wait_calls c ! w) else wait_calls c ! w)"
proof -
  have "distinct (listeners k c)" using assms by (simp add: wf_def listeners_ok_distinct)
  from fold_call_listener[OF assms(1) this subset_refl, of r] assms(2)
  show ?thesis
    by (simp add: emit_def listener_iff_pending[OF assms])
qed

lemma emit_suspended:
  assumes "wf c"
  shows "suspended (emit k r c) = suspended c @ [(k, r, validatorFn k c r)]"
proof -
  have lok: "listeners_ok c" using assms by (simp add: wf_def)
  have one: "distinct ls \<Longrightarrow> x \<in> set ls \<Longrightarrow> filter (\<lambda>l. l = x) ls = [x]" for ls and x :: listener
    by (induction ls) (auto simp: filter_empty_conv)
  have "filter (\<lambda>l. l = StoreListener) (listeners k c) = [StoreListener]"
    using listeners_ok_distinct[OF lok, of k] listeners_ok_store[OF lok, of k] by (rule one)
  then show ?thesis by (simp add: emit_def fold_call_listener_suspended)
qed

lemma wf_step: "wf c \<Longrightarrow> wf (step e c)"
  by (cases e) (simp_all add: wf_emit wf_resume wf_fire wf_wait)

lemma wf_run: "wf c \<Longrightarrow> wf (run es c)"
  unfolding run_def by (induction es arbitrary: c) (simp_all add: wf_step)

lemma run_Nil [simp]: "run [] c = c"
  by (simp add: run_def)

lemma run_Cons [simp]: "run (e # es) c = run es (step e c)"
  by (simp add: run_def)

lemma run_append [simp]: "run (es @ es') c = run es' (run es c)"
  by (simp add: run_def)

subsection \<open>Saving records\<close>

lemma fire_frame [simp]:
  "store k (fire w c) = store k c"
  "cacheLimit (fire w c) = cacheLimit c"
  "validatorFn k (fire w c) = validatorFn k c"
  "suspended (fire w c) = suspended c"
  "unhandled_rejections (fire w c) = unhandled_rejections c"
  "length (wait_calls (fire w c)) = length (wait_calls c)"
  by (simp_all add: fire_def Let_def prim_defs)

lemma wait_frame [simp]:
  "store k' (wait k rx t c) = store k' c"
  "cacheLimit (wait k rx t c) = cacheLimit c"
  "validatorFn k' (wait k rx t c) = validatorFn k' c"
  "suspended (wait k rx t c) = suspended c"
  "unhandled_rejections (wait k rx t c) = unhandled_rejections c"
  "length (wait_calls (wait k rx t c)) = Suc (length (wait_calls c))"
  by (simp_all add: wait_def Let_def prim_defs split: option.split)

lemma set_push_slice: "set (push_slice C r xs) \<subseteq> insert r (set xs)"
proof -
  have "set (drop n (xs @ [r])) \<subseteq> insert r (set xs)" for n
    using set_drop_subset[of n "xs @ [r]"] by auto
  then show ?thesis by (simp add: push_slice_def slice_from_def Let_def)
qed

lemma resume_store:
  "store k (resume i c) = store k c \<or>
   (\<exists>r. (k, r, Returns True) \<in> set (suspended c) \<and>
        store k (resume i c) = push_slice (cacheLimit c) r (store k c))"
proof (cases "i < length (suspended c)")
  case False
  then show ?thesis by (simp add: resume_def)
next
  case True
  obtain k' r v where j: "suspended c ! i = (k', r, v)" by (cases "suspended c ! i")
  have mem: "(k', r, v) \<in> set (suspended c)" using True j by (metis nth_mem)
  show ?thesis
  proof (cases v)
    case (Returns b)
    then show ?thesis using True j mem by (auto simp: resume_def save_def)
  next
    case (Throws e)
    then show ?thesis using True j by (simp add: resume_def)
  qed
qed

lemma resume_suspended: "set (suspended (resume i c)) \<subseteq> set (suspended c)"
proof (cases "i < length (suspended c)")
  case False
  then show ?thesis by (simp add: resume_def)
next
  case True
  obtain k' r v where j: "suspended c ! i = (k', r, v)" by (cases "suspended c ! i")
  have "set (take i xs @ drop (Suc i) xs) \<subseteq> set xs" for xs :: "(kind \<times> http_record \<times> verdict) list"
    using set_take_subset[of i xs] set_drop_subset[of "Suc i" xs] by auto
  then show ?thesis using True j by (cases v) (auto simp: resume_def save_def)
qed

lemma ingest_eq:
  assumes "wf c"
  shows "ingest k r c = resume_listener (k, r, validatorFn k c r) ((emit k r c)\<lparr>suspended := suspended c\<rparr>)"
  by (simp add: ingest_def resume_def emit_suspended[OF assms])

lemma ingest_store:
  assumes "wf c"
  shows "store k' (ingest k r c) =
           (if k' = k \<and> validatorFn k c r = Returns True
            then push_slice (cacheLimit c) r (store k c) else store k' c)"
  unfolding ingest_eq[OF assms] by (cases "validatorFn k c r") (simp_all add: save_def)

lemma ingest_frame:
  assumes "wf c"
  shows "wf (ingest k r c)" "cacheLimit (ingest k r c) = cacheLimit c"
    "validatorFn k' (ingest k r c) = validatorFn k' c" "suspended (ingest k r c) = suspended c"
proof -
  show "wf (ingest k r c)" unfolding ingest_def by (intro wf_resume wf_emit assms)
  show "cacheLimit (ingest k r c) = cacheLimit c" by (simp add: ingest_def)
  show "validatorFn k' (ingest k r c) = validatorFn k' c" by (simp add: ingest_def)
  show "suspended (ingest k r c) = suspended c"
    unfolding ingest_eq[OF assms] by (cases "validatorFn k c r") (simp_all add: save_def)
qed

lemma fold_ingest_recent:
  assumes "1 \<le> cacheLimit c" "wf c" "store k c = drop (length pre - nat (cacheLimit c)) pre"
  shows "store k (fold (ingest k) rs c) =
           drop (length (pre @ filter (\<lambda>r. validatorFn k c r = Returns True) rs) - nat (cacheLimit c))
             (pre @ filter (\<lambda>r. validatorFn k c r = Returns True) rs)"
  using assms
proof (induction rs arbitrary: c pre)
  case Nil
  then show ?case by simp
next
  case (Cons r rs)
  let ?c1 = "ingest k r c"
  note F = ingest_frame[OF Cons.prems(2), where k = k and r = r]
  show ?case
  proof (cases "validatorFn k c r = Returns True")
    case True
    have "store k ?c1 = drop (length (pre @ [r]) - nat (cacheLimit ?c1)) (pre @ [r])"
      using push_slice_recent[OF Cons.prems(1), of r pre] True Cons.prems(3)
      by (simp add: ingest_store[OF Cons.prems(2)] F(2))
    from Cons.IH[OF _ F(1) this] Cons.prems(1) True show ?thesis
      by (simp add: F)
  next
    case False
    have "store k ?c1 = drop (length pre - nat (cacheLimit ?c1)) pre"
      using False Cons.prems(3) by (simp add: ingest_store[OF Cons.prems(2)] F(2))
    from Cons.IH[OF _ F(1) this] Cons.prems(1) False show ?thesis
      by (simp add: F)
  qed
qed

lemma step_bound:
  assumes "1 \<le> cacheLimit c" "int (length (store k c)) \<le> cacheLimit c"
  shows "int (length (store k (step e c))) \<le> cacheLimit c \<and> cacheLimit (step e c) = cacheLimit c"
proof (cases e)
  case (Resume i)
  then show ?thesis
    using resume_store[of k i c] assms length_push_slice[OF assms(1)] by auto
qed (use assms in simp_all)

lemma run_bound:
  assumes "1 \<le> cacheLimit c" "int (length (store k c)) \<le> cacheLimit c"
  shows "int (length (store k (run es c))) \<le> cacheLimit c"
  using assms
proof (induction es arbitrary: c)
  case Nil
  then show ?case by simp
next
  case (Cons e es)
  from step_bound[OF Cons.prems, of e] Cons.IH[of "step e c"] Cons.prems(1)
  show ?case by simp
qed

lemma configure_fields [simp]:
  "cacheLimit (configure C vq vs c) = C"
  "validatorFn Request (configure C vq vs c) = vq"
  "validatorFn Response (configure C vq vs c) = vs"
  "store k (configure C vq vs c) = store k c"
  "listeners k (configure C vq vs c) = listeners k c"
  "wait_calls (configure C vq vs c) = wait_calls c"
  "suspended (configure C vq vs c) = suspended c"
  "unhandled_rejections (configure C vq vs c) = unhandled_rejections c"
  "requestValidatorFn (configure C vq vs c) = vq"
  "responseValidatorFn (configure C vq vs c) = vs"
  "requests (configure C vq vs c) = requests c"
  "responses (configure C vq vs c) = responses c"
  by (cases k; simp add: configure_def)+

lemma wf_configure: "wf c \<Longrightarrow> wf (configure C vq vs c)"
  unfolding configure_def by (rule wf_config)

lemma store_new_cache [simp]: "store k new_cache = []"
  by (cases k) (simp_all add: new_cache_def)

subsection \<open>Pending and settled calls along an execution\<close>

lemma fire_other: "v \<noteq> w \<Longrightarrow> wait_calls (fire w c) ! v = wait_calls c ! v"
  by (simp add: fire_def Let_def prim_defs)

lemma wait_old_entries:
  "v < length (wait_calls c) \<Longrightarrow> wait_calls (wait k rx t c) ! v = wait_calls c ! v"
  by (simp add: wait_def Let_def prim_defs nth_append split: option.split)

lemma length_wait_calls_step: "length (wait_calls c) \<le> length (wait_calls (step e c))"
  by (cases e) simp_all

lemma length_wait_calls_run: "length (wait_calls c) \<le> length (wait_calls (run es c))"
proof (induction es arbitrary: c)
  case Nil
  show ?case by simp
next
  case (Cons e es)
  show ?case using length_wait_calls_step[of c e] Cons[of "step e c"] by simp
qed

lemma settled_step:
  assumes "wf c" "v < length (wait_calls c)" "promise (wait_calls c ! v) \<noteq> Pending"
  shows "wait_calls (step e c) ! v = wait_calls c ! v"
proof (cases e)
  case (Emit k r)
  then show ?thesis using assms by (simp add: emit_wait_call)
next
  case (Resume i)
  then show ?thesis by simp
next
  case (Fire w)
  show ?thesis
  proof (cases "w = v")
    case True
    have "timeoutTimer (wait_calls c ! v) \<noteq> Armed"
      using assms waits_okD(5)[of c v] by (simp add: wf_def)
    then show ?thesis using Fire True by (simp add: fire_not_armed)
  next
    case False
    then show ?thesis using Fire by (simp add: fire_other)
  qed
next
  case (Wait k rx t)
  then show ?thesis using assms(2) by (simp add: wait_old_entries)
qed

lemma settled_run:
  assumes "wf c" "v < length (wait_calls c)" "promise (wait_calls c ! v) \<noteq> Pending"
  shows "wait_calls (run es c) ! v = wait_calls c ! v"
  using assms
proof (induction es arbitrary: c)
  case Nil
  show ?case by simp
next
  case (Cons e es)
  have s: "wait_calls (step e c) ! v = wait_calls c ! v" by (rule settled_step[OF Cons.prems])
  have "v < length (wait_calls (step e c))"
    using Cons.prems(2) length_wait_calls_step[of c e] by simp
  from Cons.IH[OF wf_step[OF Cons.prems(1)] this] s Cons.prems(3) show ?case by simp
qed

lemma pending_step:
  assumes "wf c" "v < length (wait_calls c)" "promise (wait_calls c ! v) = Pending"
    "passes (wkind (wait_calls c ! v)) (urlRegex (wait_calls c ! v)) v e"
  shows "wait_calls (step e c) ! v = wait_calls c ! v"
proof (cases e)
  case (Emit k r)
  then show ?thesis using assms by (auto simp: emit_wait_call)
next
  case (Resume i)
  then show ?thesis by simp
next
  case (Fire w)
  then show ?thesis using assms(4) by (simp add: fire_other)
next
  case (Wait k rx t)
  then show ?thesis using assms(2) by (simp add: wait_old_entries)
qed

lemma pending_run:
  assumes "wf c" "v < length (wait_calls c)" "promise (wait_calls c ! v) = Pending"
    "\<forall>e \<in> set es. passes (wkind (wait_calls c ! v)) (urlRegex (wait_calls c ! v)) v e"
  shows "wait_calls (run es c) ! v = wait_calls c ! v"
  using assms
proof (induction es arbitrary: c)
  case Nil
  show ?case by simp
next
  case (Cons e es)
  have s: "wait_calls (step e c) ! v = wait_calls c ! v"
    using Cons.prems by (intro pending_step) simp_all
  have "v < length (wait_calls (step e c))"
    using Cons.prems(2) length_wait_calls_step[of c e] by simp
  from Cons.IH[OF wf_step[OF Cons.prems(1)] this] s Cons.prems(3,4) show ?case by simp
qed

lemma pending_emit_match:
  assumes "wf c" "v < length (wait_calls c)" "promise (wait_calls c ! v) = Pending"
    "urlRegex (wait_calls c ! v) (url r)"
  shows "wait_calls (emit (wkind (wait_calls c ! v)) r c) ! v = resolved_by r (wait_calls c ! v)"
  using assms by (simp add: emit_wait_call)

lemma pending_fire:
  assumes "wf c" "v < length (wait_calls c)" "promise (wait_calls c ! v) = Pending"
  shows "wait_calls (fire v c) ! v =
           (wait_calls c ! v)\<lparr>timeoutTimer := Fired,
              promise := Rejected (timeout_error (wkind (wait_calls c ! v))),
              settle_calls := Suc (settle_calls (wait_calls c ! v))\<rparr>"
proof -
  have "timeoutTimer (wait_calls c ! v) = Armed"
    using assms waits_okD(2)[of c v] by (simp add: wf_def)
  from fire_armed(2)[OF assms(1,2) this] assms(2) show ?thesis by simp
qed

lemma settled_not_listening:
  assumes "wf c" "v < length (wait_calls c)" "promise (wait_calls c ! v) \<noteq> Pending"
  shows "WaitListener v \<notin> set (listeners k c)"
  using listener_iff_pending[OF assms(1,2)] assms(3) by simp

lemma filter_remove_last:
  "filter (\<lambda>x. x \<noteq> l) (rev (remove1 l (rev ls))) = filter (\<lambda>x. x \<noteq> l) ls"
proof -
  have "filter (\<lambda>x. x \<noteq> l) (rev (remove1 l (rev ls))) =
        rev (remove1 l (filter (\<lambda>x. x \<noteq> l) (rev ls)))"
    by (simp add: rev_filter[symmetric] filter_remove1)
  also have "remove1 l (filter (\<lambda>x. x \<noteq> l) (rev ls)) = filter (\<lambda>x. x \<noteq> l) (rev ls)"
    by (rule remove1_idem) simp
  finally show ?thesis by (simp add: rev_filter)
qed

lemma fire_listeners:
  "filter (\<lambda>x. x \<noteq> WaitListener w) (listeners k (fire w c)) =
   filter (\<lambda>x. x \<noteq> WaitListener w) (listeners k c)"
  by (simp add: fire_def Let_def prim_defs filter_remove_last)

subsection \<open>A wait call and the events that pass it by\<close>

lemma wait_pending_entry:
  assumes "exist k rx c = None"
  shows "wait_calls (wait k rx t c) ! length (wait_calls c) =
     \<lparr>wkind = k, urlRegex = rx, timeout = t, timeoutTimer = Armed,
       promise = Pending, settle_calls = 0\<rparr>"
  by (simp add: wait_not_found[OF assms])

lemma after_wait_quiet:
  assumes "wf c" "exist k rx c = None" "\<forall>e \<in> set es. passes k rx (length (wait_calls c)) e"
  shows "wf (run es (wait k rx t c))"
    "length (wait_calls c) < length (wait_calls (run es (wait k rx t c)))"
    "wait_calls (run es (wait k rx t c)) ! length (wait_calls c) =
       \<lparr>wkind = k, urlRegex = rx, timeout = t, timeoutTimer = Armed,
         promise = Pending, settle_calls = 0\<rparr>"
proof -
  let ?w = "length (wait_calls c)"
  let ?c' = "wait k rx t c"
  have wf': "wf ?c'" by (rule wf_wait[OF assms(1)])
  show "wf (run es ?c')" by (rule wf_run[OF wf'])
  have lt: "?w < length (wait_calls ?c')" by simp
  then show "?w < length (wait_calls (run es ?c'))"
    using length_wait_calls_run[of ?c' es] by simp
  note e = wait_pending_entry[OF assms(2), of t]
  have "wait_calls (run es ?c') ! ?w = wait_calls ?c' ! ?w"
    using assms(3) by (intro pending_run[OF wf' lt]) (simp_all add: e)
  then show "wait_calls (run es ?c') ! ?w =
       \<lparr>wkind = k, urlRegex = rx, timeout = t, timeoutTimer = Armed,
         promise = Pending, settle_calls = 0\<rparr>"
    by (simp add: e)
qed

subsection \<open>Only accepted records are stored\<close>

lemma accepted_only_step:
  assumes "accepted_only c0 c"
  shows "accepted_only c0 (step e c)"
proof (cases e)
  case (Emit k r)
  have "suspended (emit k r c) =
     suspended c @ map (\<lambda>_. (k, r, validatorFn k c r)) (filter (\<lambda>l. l = StoreListener) (listeners k c))"
    by (simp add: emit_def fold_call_listener_suspended)
  then show ?thesis using assms Emit unfolding accepted_only_def by auto
next
  case (Resume i)
  have a: "validatorFn k (resume i c) = validatorFn k c0" for k
    using assms by (simp add: accepted_only_def)
  have b: "validatorFn k c0 r = Returns True" if "r \<in> set (store k (resume i c))" for k r
  proof -
    have old: "r' \<in> set (store k c) \<Longrightarrow> validatorFn k c0 r' = Returns True" for r'
      using assms unfolding accepted_only_def by blast
    from resume_store[of k i c] show ?thesis
    proof
      assume "store k (resume i c) = store k c"
      then show ?thesis using that old by simp
    next
      assume "\<exists>r'. (k, r', Returns True) \<in> set (suspended c) \<and>
        store k (resume i c) = push_slice (cacheLimit c) r' (store k c)"
      then obtain r' where r': "(k, r', Returns True) \<in> set (suspended c)"
        and eq: "store k (resume i c) = push_slice (cacheLimit c) r' (store k c)" by blast
      have "Returns True = validatorFn k c0 r'"
        using assms r' unfolding accepted_only_def by blast
      moreover have "r = r' \<or> r \<in> set (store k c)"
        using that eq set_push_slice[of "cacheLimit c" r' "store k c"] by auto
      ultimately show ?thesis using old by auto
    qed
  qed
  have c: "v = validatorFn k c0 r" if "(k, r, v) \<in> set (suspended (resume i c))" for k r v
    using resume_suspended[of i c] assms that unfolding accepted_only_def by blast
  show ?thesis unfolding accepted_only_def Resume step.simps using a b c by blast
next
  case (Fire w)
  then show ?thesis using assms by (simp add: accepted_only_def)
next
  case (Wait k rx t)
  then show ?thesis using assms by (simp add: accepted_only_def)
qed

lemma accepted_only_run: "accepted_only c0 c \<Longrightarrow> accepted_only c0 (run es c)"
  by (induction es arbitrary: c) (simp_all add: accepted_only_step)

lemma suspended_new_cache [simp]: "suspended new_cache = []"
  by (simp add: new_cache_def)

lemma accepted_only_configure: "accepted_only (configure C vq vs new_cache) (configure C vq vs new_cache)"
  by (simp add: accepted_only_def)

subsection \<open>Evaluating examples\<close>

lemmas eval_defs = wait_def emit_def wait_listener_def fire_def resume_def save_def
  push_slice_def slice_from_def prim_defs existRequest_def existResponse_def
  new_cache_def configure_def url_is_def rec_A_def rec_B_def rec_C_def Let_def
  reject_all_def fail_all_def validator_error_def url_prefix_def accept_url_def

section \<open>The claims\<close>

subsection \<open>Lookup\<close>

text \<open>
  Claim C7. For every store and every pattern, \<^verbatim>\<open>existRequest\<close> (and \<^verbatim>\<open>existResponse\<close>
  alike) returns the earliest retained record whose URL matches the pattern: the match at
  the least index of the array, whose index 0 holds the oldest retained record. It
  returns \<open>None\<close>, a value and not an error, exactly when no retained record matches.
\<close>

theorem exist_earliest_retained:
  "(exist k rx c = None \<longleftrightarrow> (\<forall>r \<in> set (store k c). \<not> rx (url r))) \<and>
   (exist k rx c = Some r \<longleftrightarrow>
      (\<exists>i < length (store k c). store k c ! i = r \<and> rx (url r) \<and>
         (\<forall>j < i. \<not> rx (url (store k c ! j)))))"
proof -
  have "exist k rx c = find (\<lambda>r. rx (url r)) (store k c)"
    by (cases k) (simp_all add: existRequest_def existResponse_def)
  then show ?thesis by (auto simp: find_None_iff find_Some_iff)
qed

theorem exist_earliest_retained_witness:
  "existRequest (url_is ''https://x/3'')
     (new_cache\<lparr>requests := [rec_B, rec_C, rec_C\<lparr>date := 40\<rparr>]\<rparr>) = Some rec_C \<and>
   existRequest (url_is ''https://x/1'')
     (new_cache\<lparr>requests := [rec_B, rec_C, rec_C\<lparr>date := 40\<rparr>]\<rparr>) = None"
  using exist_earliest_retained[of Request "url_is ''https://x/3''"
      "new_cache\<lparr>requests := [rec_B, rec_C, rec_C\<lparr>date := 40\<rparr>]\<rparr>" rec_C]
    exist_earliest_retained[of Request "url_is ''https://x/1''"
      "new_cache\<lparr>requests := [rec_B, rec_C, rec_C\<lparr>date := 40\<rparr>]\<rparr>"]
  by (simp add: url_is_def rec_B_def rec_C_def new_cache_def existRequest_def)

subsection \<open>Capacity\<close>

text \<open>
  Claim C2. Let the capacity \<open>C\<close> be at least 1 and let a sequence of records of one
  kind be ingested into a new cache with that capacity. The store then holds the last
  \<open>min N C\<close> of the \<open>N\<close> records that the validator accepted, in their order of
  acceptance (the oldest are dropped). After any execution at all the length of the
  store is at most \<open>C\<close>.
\<close>

theorem capacity_keeps_most_recent:
  assumes "1 \<le> C"
  shows "store k (fold (ingest k) rs (configure C vq vs new_cache)) =
           drop (length (filter (\<lambda>r. validatorFn k (configure C vq vs new_cache) r = Returns True) rs) - nat C)
             (filter (\<lambda>r. validatorFn k (configure C vq vs new_cache) r = Returns True) rs) \<and>
         length (store k (fold (ingest k) rs (configure C vq vs new_cache))) =
           min (length (filter (\<lambda>r. validatorFn k (configure C vq vs new_cache) r = Returns True) rs)) (nat C) \<and>
         int (length (store k (run es (configure C vq vs new_cache)))) \<le> C"
proof -
  let ?c0 = "configure C vq vs new_cache"
  have wf0: "wf ?c0" by (intro wf_configure wf_new_cache)
  have eq: "store k (fold (ingest k) rs ?c0) =
           drop (length (filter (\<lambda>r. validatorFn k ?c0 r = Returns True) rs) - nat C)
             (filter (\<lambda>r. validatorFn k ?c0 r = Returns True) rs)"
    using fold_ingest_recent[of ?c0 k "[]" rs] assms wf0 by simp
  have "length (store k (fold (ingest k) rs ?c0)) =
           min (length (filter (\<lambda>r. validatorFn k ?c0 r = Returns True) rs)) (nat C)"
    unfolding eq by simp
  moreover have "int (length (store k (run es ?c0))) \<le> C"
    using run_bound[of ?c0 k es] assms by simp
  ultimately show ?thesis using eq by blast
qed

theorem capacity_keeps_most_recent_witness:
  "(1::int) \<le> 2 \<and>
   requests (fold (ingest Request) [rec_A, rec_B, rec_C]
     (configure 2 (\<lambda>_. Returns True) (\<lambda>_. Returns True) new_cache)) = [rec_B, rec_C]"
  using capacity_keeps_most_recent[of 2 Request "[rec_A, rec_B, rec_C]" "\<lambda>_. Returns True" "\<lambda>_. Returns True" "[]"]
  by simp

text \<open>
  Claim C10. With \<^verbatim>\<open>cacheLimit\<close> set to 0 the truncation \<^verbatim>\<open>slice(-0)\<close> returns the whole
  array, so every accepted ingest makes the store one record longer; the bound
  \<open>length \<le> cacheLimit\<close> holds after a save exactly when \<^verbatim>\<open>cacheLimit\<close> is at least 1.
\<close>

theorem cacheLimit_zero_never_evicts:
  "slice_from (- 0) xs = xs \<and>
   (wf c \<and> cacheLimit c = 0 \<and> validatorFn k c r = Returns True \<longrightarrow>
      store k (ingest k r c) = store k c @ [r]) \<and>
   (int (length (store k (save k r c))) \<le> cacheLimit c \<longleftrightarrow> 1 \<le> cacheLimit c)"
proof -
  have "int (length (push_slice C r xs)) \<le> C \<longleftrightarrow> 1 \<le> C" for C and xs :: "http_record list"
  proof (cases "1 \<le> C")
    case True
    then show ?thesis by (simp add: length_push_slice)
  next
    case False
    then have "C = 0 \<or> C < 0" by auto
    then show ?thesis
    proof
      assume "C = 0"
      then show ?thesis by (simp add: push_slice_zero)
    next
      assume "C < 0"
      then show ?thesis by simp
    qed
  qed
  then have "int (length (store k (save k r c))) \<le> cacheLimit c \<longleftrightarrow> 1 \<le> cacheLimit c"
    by (simp add: save_def)
  then show ?thesis
    by (auto simp: slice_from_zero ingest_store push_slice_zero)
qed

theorem cacheLimit_zero_never_evicts_witness:
  "cacheLimit (configure 0 (\<lambda>_. Returns True) (\<lambda>_. Returns True) new_cache) = 0 \<and>
   requests (ingest Request rec_A
      (configure 0 (\<lambda>_. Returns True) (\<lambda>_. Returns True) new_cache)) = [rec_A] \<and>
   \<not> int (length (requests (save Request rec_A
      (configure 0 (\<lambda>_. Returns True) (\<lambda>_. Returns True) new_cache)))) \<le> 0"
proof -
  let ?c0 = "configure 0 (\<lambda>_. Returns True) (\<lambda>_. Returns True) new_cache"
  have w0: "wf ?c0" by (intro wf_configure wf_new_cache)
  have "cacheLimit ?c0 = 0" "validatorFn Request ?c0 rec_A = Returns True" "store Request ?c0 = []"
    by simp_all
  with w0 cacheLimit_zero_never_evicts[of "[]" ?c0 Request rec_A]
  show ?thesis by auto
qed

subsection \<open>The fast path of a wait\<close>

text \<open>
  Claim C3. If \<^verbatim>\<open>exist\<close> finds a record for the pattern when a wait method is called, the
  call only adds its promise, already resolved with that same record: no timer is
  created and the listener arrays are unchanged. If \<^verbatim>\<open>exist\<close> finds none, the promise
  is left pending, with an armed timer and the listener of the call registered last.
\<close>

theorem wait_fast_path:
  "(exist k rx c = Some r \<longrightarrow>
      wait k rx t c = c\<lparr>wait_calls := wait_calls c @
        [\<lparr>wkind = k, urlRegex = rx, timeout = t, timeoutTimer = NotCreated,
          promise = Resolved r, settle_calls = 1\<rparr>]\<rparr>) \<and>
   (exist k rx c = None \<longrightarrow>
      wait k rx t c = set_listeners k (listeners k c @ [WaitListener (length (wait_calls c))])
        (c\<lparr>wait_calls := wait_calls c @
           [\<lparr>wkind = k, urlRegex = rx, timeout = t, timeoutTimer = Armed,
             promise = Pending, settle_calls = 0\<rparr>]\<rparr>))"
  using wait_found[of k rx c r t] wait_not_found[of k rx c t] by blast

theorem wait_fast_path_witness:
  "exist Request (url_is ''https://x/2'') (new_cache\<lparr>requests := [rec_A, rec_B]\<rparr>) = Some rec_B \<and>
   promise (last (wait_calls (waitRequest (url_is ''https://x/2'') 50
      (new_cache\<lparr>requests := [rec_A, rec_B]\<rparr>)))) = Resolved rec_B \<and>
   request_listeners (waitRequest (url_is ''https://x/2'') 50
      (new_cache\<lparr>requests := [rec_A, rec_B]\<rparr>)) = [StoreListener] \<and>
   exist Request (url_is ''https://x/3'') (new_cache\<lparr>requests := [rec_A, rec_B]\<rparr>) = None \<and>
   promise (last (wait_calls (waitRequest (url_is ''https://x/3'') 50
      (new_cache\<lparr>requests := [rec_A, rec_B]\<rparr>)))) = Pending \<and>
   request_listeners (waitRequest (url_is ''https://x/3'') 50
      (new_cache\<lparr>requests := [rec_A, rec_B]\<rparr>)) = [StoreListener, WaitListener 0]"
proof -
  let ?c = "new_cache\<lparr>requests := [rec_A, rec_B]\<rparr>"
  have f: "exist Request (url_is ''https://x/2'') ?c = Some rec_B"
    by (simp add: existRequest_def url_is_def rec_A_def rec_B_def)
  have n: "exist Request (url_is ''https://x/3'') ?c = None"
    by (simp add: existRequest_def url_is_def rec_A_def rec_B_def)
  show ?thesis
    using f n wait_fast_path[of Request "url_is ''https://x/2''" ?c rec_B 50]
      wait_fast_path[of Request "url_is ''https://x/3''" ?c rec_B 50]
    by (simp add: waitRequest_def new_cache_def)
qed

subsection \<open>Settlement\<close>

text \<open>
  Claim C6. Every wait call of every execution settles exactly once. In any reachable
  state a call has made at most one call of \<^verbatim>\<open>resolve\<close> or \<^verbatim>\<open>reject\<close>, and none exactly
  while its promise is pending. A pending call has its timer armed, so that the timeout
  settles it (never neither), and a record matching its pattern settles it too; each
  does so with one call. Once the promise is settled no later event changes the call:
  the trigger that comes second is a no-op, and the outcome of the first stays.
\<close>

theorem wait_settles_exactly_once:
  assumes "w < length (wait_calls (run es0 (configure C vq vs new_cache)))"
  shows "let c = run es0 (configure C vq vs new_cache); pw = wait_calls c ! w in
     settle_calls pw \<le> 1 \<and> (settle_calls pw = 0 \<longleftrightarrow> promise pw = Pending) \<and>
     (promise pw = Pending \<longrightarrow>
        timeoutTimer pw = Armed \<and>
        promise (wait_calls (fire w c) ! w) = Rejected (timeout_error (wkind pw)) \<and>
        settle_calls (wait_calls (fire w c) ! w) = 1 \<and>
        (urlRegex pw (url r) \<longrightarrow>
           promise (wait_calls (emit (wkind pw) r c) ! w) = Resolved r \<and>
           settle_calls (wait_calls (emit (wkind pw) r c) ! w) = 1)) \<and>
     (promise pw \<noteq> Pending \<longrightarrow> (\<forall>es. wait_calls (run es c) ! w = pw))"
proof -
  let ?c = "run es0 (configure C vq vs new_cache)"
  let ?pw = "wait_calls ?c ! w"
  have wfc: "wf ?c" by (intro wf_run wf_configure wf_new_cache)
  then have wok: "waits_ok ?c" by (simp add: wf_def)
  note D = waits_okD[OF wok assms]
  have 1: "settle_calls ?pw \<le> 1 \<and> (settle_calls ?pw = 0 \<longleftrightarrow> promise ?pw = Pending)"
    using D(1,4) by (cases "promise ?pw = Pending") simp_all
  have 2: "promise ?pw = Pending \<longrightarrow>
        timeoutTimer ?pw = Armed \<and>
        promise (wait_calls (fire w ?c) ! w) = Rejected (timeout_error (wkind ?pw)) \<and>
        settle_calls (wait_calls (fire w ?c) ! w) = 1 \<and>
        (urlRegex ?pw (url r) \<longrightarrow>
           promise (wait_calls (emit (wkind ?pw) r ?c) ! w) = Resolved r \<and>
           settle_calls (wait_calls (emit (wkind ?pw) r ?c) ! w) = 1)"
    using D(1,2) pending_fire[OF wfc assms] pending_emit_match[OF wfc assms, of r]
    by (simp add: resolved_by_def)
  have 3: "promise ?pw \<noteq> Pending \<longrightarrow> (\<forall>es. wait_calls (run es ?c) ! w = ?pw)"
    using settled_run[OF wfc assms] by blast
  show ?thesis using 1 2 3 by (simp add: Let_def)
qed

theorem wait_settles_exactly_once_witness:
  "0 < length (wait_calls (run [Wait Request (url_is ''https://x/1'') 50, Emit Request rec_A]
      (configure 100 (\<lambda>_. Returns True) (\<lambda>_. Returns True) new_cache))) \<and>
   promise (wait_calls (run [Fire 0]
     (run [Wait Request (url_is ''https://x/1'') 50, Emit Request rec_A]
        (configure 100 (\<lambda>_. Returns True) (\<lambda>_. Returns True) new_cache))) ! 0) = Resolved rec_A \<and>
   settle_calls (wait_calls (run [Fire 0]
     (run [Wait Request (url_is ''https://x/1'') 50, Emit Request rec_A]
        (configure 100 (\<lambda>_. Returns True) (\<lambda>_. Returns True) new_cache))) ! 0) = 1"
proof -
  let ?es0 = "[Wait Request (url_is ''https://x/1'') 50, Emit Request rec_A]"
  let ?c0 = "configure 100 (\<lambda>_. Returns True) (\<lambda>_. Returns True) new_cache"
  have len: "0 < length (wait_calls (run ?es0 ?c0))" by simp
  have entry: "wait_calls (run ?es0 ?c0) ! 0 =
      \<lparr>wkind = Request, urlRegex = url_is ''https://x/1'', timeout = 50, timeoutTimer = Cleared,
       promise = Resolved rec_A, settle_calls = 1\<rparr>"
    by (simp add: eval_defs)
  from wait_settles_exactly_once[OF len, of rec_A] entry
  have "\<forall>es. wait_calls (run es (run ?es0 ?c0)) ! 0 = wait_calls (run ?es0 ?c0) ! 0"
    by (simp add: Let_def)
  then have "wait_calls (run [Fire 0] (run ?es0 ?c0)) ! 0 = wait_calls (run ?es0 ?c0) ! 0"
    by blast
  then show ?thesis using len entry by simp
qed

text \<open>
  Claim C9. The timeout callback of a wait call changes neither \<^verbatim>\<open>requests\<close> nor
  \<^verbatim>\<open>responses\<close>, nor the limit, the validators or the suspended store listeners; it
  changes no other wait call (promise, timer, captured values) and removes no listener
  but its own: the other listeners stay, in their order.
\<close>

theorem timeout_leaves_rest_unchanged:
  "requests (fire w c) = requests c \<and> responses (fire w c) = responses c \<and>
   cacheLimit (fire w c) = cacheLimit c \<and>
   requestValidatorFn (fire w c) = requestValidatorFn c \<and>
   responseValidatorFn (fire w c) = responseValidatorFn c \<and>
   suspended (fire w c) = suspended c \<and>
   unhandled_rejections (fire w c) = unhandled_rejections c \<and>
   length (wait_calls (fire w c)) = length (wait_calls c) \<and>
   (\<forall>v. v \<noteq> w \<longrightarrow> wait_calls (fire w c) ! v = wait_calls c ! v) \<and>
   (\<forall>k. filter (\<lambda>l. l \<noteq> WaitListener w) (listeners k (fire w c)) =
        filter (\<lambda>l. l \<noteq> WaitListener w) (listeners k c))"
proof -
  have "requests (fire w c) = requests c" "responses (fire w c) = responses c"
    "requestValidatorFn (fire w c) = requestValidatorFn c"
    "responseValidatorFn (fire w c) = responseValidatorFn c"
    using fire_frame(1)[of Request w c, unfolded store.simps]
      fire_frame(1)[of Response w c, unfolded store.simps]
      fire_frame(3)[of Request w c, unfolded validatorFn.simps]
      fire_frame(3)[of Response w c, unfolded validatorFn.simps]
    by blast+
  then show ?thesis by (simp add: fire_other fire_listeners)
qed

theorem timeout_leaves_rest_unchanged_witness:
  "wait_calls (fire 0 (run [Wait Request (url_is ''https://x/1'') 30,
      Wait Request (url_is ''https://x/2'') 50] new_cache)) ! 1 =
     \<lparr>wkind = Request, urlRegex = url_is ''https://x/2'', timeout = 50, timeoutTimer = Armed,
       promise = Pending, settle_calls = 0\<rparr> \<and>
   filter (\<lambda>l. l \<noteq> WaitListener 0) (request_listeners (fire 0 (run [Wait Request (url_is ''https://x/1'') 30,
      Wait Request (url_is ''https://x/2'') 50] new_cache))) = [StoreListener, WaitListener 1]"
proof -
  let ?c = "run [Wait Request (url_is ''https://x/1'') 30, Wait Request (url_is ''https://x/2'') 50] new_cache"
  have e: "wait_calls ?c ! 1 =
     \<lparr>wkind = Request, urlRegex = url_is ''https://x/2'', timeout = 50, timeoutTimer = Armed,
       promise = Pending, settle_calls = 0\<rparr>"
    by (simp add: eval_defs)
  have l: "request_listeners ?c = [StoreListener, WaitListener 0, WaitListener 1]"
    by (simp add: eval_defs)
  have "(1::nat) \<noteq> 0" by simp
  with timeout_leaves_rest_unchanged[of 0 ?c]
  have "wait_calls (fire 0 ?c) ! 1 = wait_calls ?c ! 1"
    "filter (\<lambda>l. l \<noteq> WaitListener 0) (listeners Request (fire 0 ?c)) =
        filter (\<lambda>l. l \<noteq> WaitListener 0) (listeners Request ?c)"
    by blast+
  then show ?thesis using e l by simp
qed

subsection \<open>Late arrival\<close>

text \<open>
  Claim C4, as stated, fails, because a wait listens to what is emitted and not to what
  is accepted. First trace: the pattern matches \<open>rec_A\<close> and \<open>rec_B\<close>, the validator
  accepts \<open>rec_B\<close> only; the wait is resolved with \<open>rec_A\<close>, which is never stored,
  and not with \<open>rec_B\<close>, the one matching record accepted after the call. Second
  trace: \<open>rec_A\<close> is emitted before the wait call and its store listener resumes after
  the call; the record is accepted after the call and matches, yet the wait times out.
\<close>

theorem wait_not_resolved_by_accepted_record:
  "exist Request (url_prefix ''https://x/'')
     (configure 100 (accept_url ''https://x/2'') reject_all new_cache) = None \<and>
   url_prefix ''https://x/'' (url rec_B) \<and>
   requests (run [Wait Request (url_prefix ''https://x/'') 50, Emit Request rec_A, Resume 0,
      Emit Request rec_B, Resume 0]
      (configure 100 (accept_url ''https://x/2'') reject_all new_cache)) = [rec_B] \<and>
   promise (wait_calls (run [Wait Request (url_prefix ''https://x/'') 50, Emit Request rec_A,
      Resume 0, Emit Request rec_B, Resume 0]
      (configure 100 (accept_url ''https://x/2'') reject_all new_cache)) ! 0) = Resolved rec_A \<and>
   rec_A \<noteq> rec_B \<and>
   existRequest (url_is ''https://x/1'') (run [Emit Request rec_A] new_cache) = None \<and>
   url_is ''https://x/1'' (url rec_A) \<and>
   requests (run [Emit Request rec_A, Wait Request (url_is ''https://x/1'') 50, Resume 0]
      new_cache) = [rec_A] \<and>
   promise (wait_calls (run [Emit Request rec_A, Wait Request (url_is ''https://x/1'') 50,
      Resume 0, Fire 0] new_cache) ! 0) = Rejected (timeout_error Request)"
  by (simp add: eval_defs)

text \<open>
  Claim C4, amended. Let no stored record match the pattern when the wait method is
  called, and let the events that follow neither time the call out nor emit a record of
  its kind that matches. Then the call is still pending, and the next record emitted
  resolves it with that record if the URL matches (the timer is cleared, the listener
  removed), whatever the validator says of the record; a record that does not match
  leaves the call pending, its entry unchanged and its listener registered.
\<close>

theorem wait_resolves_on_first_matching_emit:
  assumes "wf c" "exist k rx c = None" "\<forall>e \<in> set es. passes k rx (length (wait_calls c)) e"
  shows "let w = length (wait_calls c); c1 = run es (wait k rx t c) in
     promise (wait_calls c1 ! w) = Pending \<and> WaitListener w \<in> set (listeners k c1) \<and>
     (rx (url r) \<longrightarrow>
        promise (wait_calls (emit k r c1) ! w) = Resolved r \<and>
        timeoutTimer (wait_calls (emit k r c1) ! w) = Cleared \<and>
        WaitListener w \<notin> set (listeners k (emit k r c1))) \<and>
     (\<not> rx (url r) \<longrightarrow>
        wait_calls (emit k r c1) ! w = wait_calls c1 ! w \<and>
        WaitListener w \<in> set (listeners k (emit k r c1)))"
proof -
  let ?w = "length (wait_calls c)"
  let ?c1 = "run es (wait k rx t c)"
  note A = after_wait_quiet[OF assms, of t]
  have wfe: "wf (emit k r ?c1)" by (rule wf_emit[OF A(1)])
  have lte: "?w < length (wait_calls (emit k r ?c1))" using A(2) by simp
  have L: "WaitListener ?w \<in> set (listeners k ?c1)"
    using listener_iff_pending[OF A(1,2), of k] by (simp add: A(3))
  have hit: "rx (url r) \<Longrightarrow> wait_calls (emit k r ?c1) ! ?w =
      \<lparr>wkind = k, urlRegex = rx, timeout = t, timeoutTimer = Cleared,
        promise = Resolved r, settle_calls = 1\<rparr>"
    by (simp add: emit_wait_call[OF A(1,2)] A(3) resolved_by_def)
  have miss: "\<not> rx (url r) \<Longrightarrow> wait_calls (emit k r ?c1) ! ?w = wait_calls ?c1 ! ?w"
    by (simp add: emit_wait_call[OF A(1,2)] A(3))
  have "rx (url r) \<Longrightarrow> WaitListener ?w \<notin> set (listeners k (emit k r ?c1))"
    using listener_iff_pending[OF wfe lte, of k] hit by simp
  moreover have "\<not> rx (url r) \<Longrightarrow> WaitListener ?w \<in> set (listeners k (emit k r ?c1))"
    using listener_iff_pending[OF wfe lte, of k] miss by (simp add: A(3))
  ultimately show ?thesis using L hit miss by (simp add: Let_def A(3))
qed

theorem wait_resolves_on_first_matching_emit_witness:
  "exist Request (url_is ''https://x/2'') new_cache = None \<and>
   passes Request (url_is ''https://x/2'') 0 (Emit Request rec_A) \<and>
   passes Request (url_is ''https://x/2'') 0 (Resume 0) \<and>
   promise (wait_calls (run [Emit Request rec_A, Resume 0]
      (wait Request (url_is ''https://x/2'') 50 new_cache)) ! 0) = Pending \<and>
   promise (wait_calls (emit Request rec_B (run [Emit Request rec_A, Resume 0]
      (wait Request (url_is ''https://x/2'') 50 new_cache))) ! 0) = Resolved rec_B"
proof -
  have 1: "exist Request (url_is ''https://x/2'') new_cache = None"
    by (simp add: eval_defs)
  have 2: "\<forall>e \<in> set [Emit Request rec_A, Resume 0]. passes Request (url_is ''https://x/2'') (length (wait_calls new_cache)) e"
    by (simp add: eval_defs)
  have 3: "url_is ''https://x/2'' (url rec_B)" by (simp add: eval_defs)
  have 4: "length (wait_calls new_cache) = 0" by (simp add: new_cache_def)
  from wait_resolves_on_first_matching_emit[OF wf_new_cache 1 2, of 50 rec_B] 3 4
  have "promise (wait_calls (run [Emit Request rec_A, Resume 0]
      (wait Request (url_is ''https://x/2'') 50 new_cache)) ! 0) = Pending"
    "promise (wait_calls (emit Request rec_B (run [Emit Request rec_A, Resume 0]
      (wait Request (url_is ''https://x/2'') 50 new_cache))) ! 0) = Resolved rec_B"
    by (simp_all add: Let_def)
  then show ?thesis using 1 2 4 by simp
qed

subsection \<open>Timeout\<close>

text \<open>
  Claim C5, as stated, fails: the error of a timed-out wait has a message only; it carries
  neither the pattern nor the timeout.
\<close>

theorem timeout_error_carries_no_diagnostics:
  "promise (wait_calls (run [Wait Request (url_is ''https://never'') 30, Fire 0] new_cache) ! 0) =
     Rejected \<lparr>message = ''Timeout wait request'', cause = None\<rparr> \<and>
   cause \<lparr>message = ''Timeout wait request'', cause = None\<rparr> \<noteq>
     Some (url_is ''https://never'', 30)"
  by (simp add: eval_defs)

text \<open>
  Claim C5, amended. Let no stored record match the pattern when the wait method is
  called, and let no matching record of its kind be emitted before the timer fires.
  Then the promise is rejected with the error \<^verbatim>\<open>Timeout wait request\<close> (or
  \<^verbatim>\<open>Timeout wait response\<close>), which has no cause; the listener is removed, and afterwards
  no event changes the call or registers its listener again.
\<close>

theorem wait_times_out:
  assumes "wf c" "exist k rx c = None" "\<forall>e \<in> set es. passes k rx (length (wait_calls c)) e"
  shows "let w = length (wait_calls c); c1 = fire w (run es (wait k rx t c)) in
     promise (wait_calls c1 ! w) = Rejected (timeout_error k) \<and>
     cause (timeout_error k) = None \<and>
     message (timeout_error k) =
       (case k of Request \<Rightarrow> ''Timeout wait request'' | Response \<Rightarrow> ''Timeout wait response'') \<and>
     (\<forall>es' k'. wait_calls (run es' c1) ! w = wait_calls c1 ! w \<and>
               WaitListener w \<notin> set (listeners k' (run es' c1)))"
proof -
  let ?w = "length (wait_calls c)"
  let ?c0 = "run es (wait k rx t c)"
  let ?c1 = "fire ?w ?c0"
  note A = after_wait_quiet[OF assms, of t]
  have wf1: "wf ?c1" by (rule wf_fire[OF A(1)])
  have lt1: "?w < length (wait_calls ?c1)" using A(2) by simp
  have p: "promise (wait_calls ?c1 ! ?w) = Rejected (timeout_error k)"
    using pending_fire[OF A(1,2)] by (simp add: A(3))
  then have np: "promise (wait_calls ?c1 ! ?w) \<noteq> Pending" by simp
  have stable: "wait_calls (run es' ?c1) ! ?w = wait_calls ?c1 ! ?w" for es'
    by (rule settled_run[OF wf1 lt1 np])
  have "WaitListener ?w \<notin> set (listeners k' (run es' ?c1))" for es' k'
  proof (rule settled_not_listening)
    show "wf (run es' ?c1)" by (rule wf_run[OF wf1])
    show "?w < length (wait_calls (run es' ?c1))"
      using lt1 length_wait_calls_run[of ?c1 es'] by simp
    show "promise (wait_calls (run es' ?c1) ! ?w) \<noteq> Pending"
      using stable np by simp
  qed
  with p stable show ?thesis by (cases k) (simp_all add: Let_def)
qed

theorem wait_times_out_witness:
  "exist Request (url_is ''https://never'') new_cache = None \<and>
   passes Request (url_is ''https://never'') 0 (Emit Request rec_A) \<and>
   passes Request (url_is ''https://never'') 0 (Resume 0) \<and>
   promise (wait_calls (fire 0 (run [Emit Request rec_A, Resume 0]
      (wait Request (url_is ''https://never'') 30 new_cache))) ! 0) =
     Rejected (timeout_error Request) \<and>
   WaitListener 0 \<notin> set (request_listeners (run [Emit Request \<lparr>url = ''https://never'', date = 99\<rparr>]
     (fire 0 (run [Emit Request rec_A, Resume 0]
      (wait Request (url_is ''https://never'') 30 new_cache)))))"
proof -
  have 1: "exist Request (url_is ''https://never'') new_cache = None"
    by (simp add: eval_defs)
  have 2: "\<forall>e \<in> set [Emit Request rec_A, Resume 0]. passes Request (url_is ''https://never'') (length (wait_calls new_cache)) e"
    by (simp add: eval_defs)
  have 4: "length (wait_calls new_cache) = 0" by (simp add: new_cache_def)
  let ?c1 = "fire 0 (run [Emit Request rec_A, Resume 0]
      (wait Request (url_is ''https://never'') 30 new_cache))"
  from wait_times_out[OF wf_new_cache 1 2, of 30] 4
  have a: "promise (wait_calls ?c1 ! 0) = Rejected (timeout_error Request)"
    and b: "\<forall>es' k'. wait_calls (run es' ?c1) ! 0 = wait_calls ?c1 ! 0 \<and>
               WaitListener 0 \<notin> set (listeners k' (run es' ?c1))"
    by (simp_all add: Let_def)
  from b have "WaitListener 0 \<notin> set (listeners Request
      (run [Emit Request \<lparr>url = ''https://never'', date = 99\<rparr>] ?c1))"
    by blast
  then show ?thesis using a 1 2 4 by simp
qed

subsection \<open>Rejected candidates\<close>

text \<open>
  Claim C1, as stated, fails: \<^verbatim>\<open>emit\<close> calls the wait listeners whatever the validator
  answers, so a record that the validator rejects resolves a pending wait whose pattern
  it matches, although it is never stored.
\<close>

theorem rejected_record_resolves_wait:
  "requestValidatorFn (configure 100 reject_all reject_all new_cache) rec_A = Returns False \<and>
   promise (wait_calls (run [Wait Request (url_is ''https://x/1'') 50, Emit Request rec_A, Resume 0, Fire 0]
      (configure 100 reject_all reject_all new_cache)) ! 0) = Resolved rec_A \<and>
   requests (run [Wait Request (url_is ''https://x/1'') 50, Emit Request rec_A, Resume 0, Fire 0]
      (configure 100 reject_all reject_all new_cache)) = []"
  by (simp add: eval_defs)

text \<open>
  Claim C1, amended. A record that the validator rejects is never stored: after any
  execution the store holds only records that the validator accepted. With a validator
  that rejects every candidate the store is empty after any execution, \<^verbatim>\<open>exist\<close> finds
  nothing, and every wait call starts pending.
\<close>

theorem rejected_record_never_stored:
  "(\<forall>r \<in> set (store k (run es (configure C vq vs new_cache))).
      validatorFn k (configure C vq vs new_cache) r = Returns True) \<and>
   store k (run es (configure C reject_all reject_all new_cache)) = [] \<and>
   exist k rx (run es (configure C reject_all reject_all new_cache)) = None \<and>
   promise (wait_calls (wait k rx t (run es (configure C reject_all reject_all new_cache))) !
      length (wait_calls (run es (configure C reject_all reject_all new_cache)))) = Pending"
proof -
  have A: "\<forall>r \<in> set (store k (run es (configure C vq vs new_cache))).
      validatorFn k (configure C vq vs new_cache) r = Returns True" for vq vs
    using accepted_only_run[OF accepted_only_configure, of C vq vs es]
    unfolding accepted_only_def by blast
  have "\<forall>r \<in> set (store k (run es (configure C reject_all reject_all new_cache))). False"
    using A[of reject_all reject_all] by (cases k) (simp_all add: reject_all_def)
  then have E: "store k (run es (configure C reject_all reject_all new_cache)) = []"
    by (cases "store k (run es (configure C reject_all reject_all new_cache))") auto
  then have N: "exist k rx (run es (configure C reject_all reject_all new_cache)) = None"
    by (cases k) (simp_all add: existRequest_def existResponse_def)
  show ?thesis using A E N wait_pending_entry[OF N, of t] by simp
qed

theorem rejected_record_never_stored_witness:
  "requests (run [Wait Request (url_is ''https://x/1'') 50, Emit Request rec_A, Resume 0,
      Emit Request rec_B, Resume 0] (configure 2 reject_all reject_all new_cache)) = [] \<and>
   existRequest (url_is ''https://x/1'')
     (run [Wait Request (url_is ''https://x/1'') 50, Emit Request rec_A, Resume 0,
      Emit Request rec_B, Resume 0] (configure 2 reject_all reject_all new_cache)) = None"
  using rejected_record_never_stored[of Request "[Wait Request (url_is ''https://x/1'') 50,
      Emit Request rec_A, Resume 0, Emit Request rec_B, Resume 0]" 2 reject_all reject_all
      "url_is ''https://x/1''"]
  by simp

subsection \<open>A validator that fails\<close>

text \<open>
  Claim C8, as stated, fails: when the validator throws, the record still reaches the wait
  listeners and resolves a matching wait, and the error goes to no caller: it is the
  rejection of the promise of the store listener, which nothing handles.
\<close>

theorem failed_validator_record_reaches_waiter:
  "requestValidatorFn (configure 100 fail_all fail_all new_cache) rec_A = Throws validator_error \<and>
   promise (wait_calls (run [Wait Request (url_is ''https://x/1'') 50, Emit Request rec_A, Resume 0]
      (configure 100 fail_all fail_all new_cache)) ! 0) = Resolved rec_A \<and>
   requests (run [Wait Request (url_is ''https://x/1'') 50, Emit Request rec_A, Resume 0]
      (configure 100 fail_all fail_all new_cache)) = [] \<and>
   unhandled_rejections (run [Wait Request (url_is ''https://x/1'') 50, Emit Request rec_A, Resume 0]
      (configure 100 fail_all fail_all new_cache)) = [validator_error]"
  by (simp add: eval_defs)

text \<open>
  Claim C8, amended. If the validator fails on a candidate, the candidate is not stored
  and no store listener stays suspended; the error becomes an unhandled rejection; and
  the wait calls are offered the record like any other: a pending call of that kind whose
  pattern matches is resolved with it, and every other call is unchanged.
\<close>

theorem failed_validator_not_stored:
  assumes "wf c" "validatorFn k c r = Throws e"
  shows "store k' (ingest k r c) = store k' c \<and>
         suspended (ingest k r c) = suspended c \<and>
         unhandled_rejections (ingest k r c) = unhandled_rejections c @ [e] \<and>
         (\<forall>w < length (wait_calls c). wait_calls (ingest k r c) ! w =
            (if promise (wait_calls c ! w) = Pending \<and> wkind (wait_calls c ! w) = k \<and>
                urlRegex (wait_calls c ! w) (url r)
             then resolved_by r (wait_calls c ! w) else wait_calls c ! w))"
proof -
  have eq: "ingest k r c = (emit k r c)\<lparr>suspended := suspended c,
      unhandled_rejections := unhandled_rejections c @ [e]\<rparr>"
    by (simp add: ingest_eq[OF assms(1)] assms(2))
  have "wait_calls (ingest k r c) ! w = wait_calls (emit k r c) ! w" for w
    by (simp add: eq)
  then show ?thesis
    using emit_wait_call[OF assms(1), of _ k r] by (simp add: eq)
qed

theorem failed_validator_not_stored_witness:
  "validatorFn Request (wait Request (url_is ''https://x/1'') 50
      (configure 100 fail_all fail_all new_cache)) rec_A = Throws validator_error \<and>
   requests (ingest Request rec_A (wait Request (url_is ''https://x/1'') 50
      (configure 100 fail_all fail_all new_cache))) = [] \<and>
   unhandled_rejections (ingest Request rec_A (wait Request (url_is ''https://x/1'') 50
      (configure 100 fail_all fail_all new_cache))) = [validator_error]"
proof -
  let ?c = "wait Request (url_is ''https://x/1'') 50 (configure 100 fail_all fail_all new_cache)"
  have w: "wf ?c" by (intro wf_wait wf_configure wf_new_cache)
  have v: "validatorFn Request ?c rec_A = Throws validator_error"
    by (simp add: fail_all_def)
  from failed_validator_not_stored[OF w v, of Request]
  have "requests (ingest Request rec_A ?c) = []"
    "unhandled_rejections (ingest Request rec_A ?c) = [validator_error]"
    by (simp_all add: new_cache_def)
  then show ?thesis using v by simp
qed

end
